theory Spec2Isabelle
  imports Complex_Main "HOL-Library.Word" "HOL-Library.Char_ord" "HOL-Library.List_Lexorder"
begin

section \<open>Named values and dimension tuples (src/common/tuple.hpp)\<close>

text \<open>
  The class template \<^verbatim>\<open>Tuple<T>\<close> is modelled at an integer element type: values are
  \<^typ>\<open>int\<close>, and the conversions to \<^verbatim>\<open>size_t\<close> made by \<^verbatim>\<open>layout\<close> are written
  out as 64-bit words. Where the range of the machine type matters, it is a hypothesis
  of the theorem. A \<^verbatim>\<open>Scalar<T>\<close> is a name with a value. Names are interned
  strings, so comparing name pointers is comparing the strings.

  The members \<^verbatim>\<open>sum\<close>, \<^verbatim>\<open>product\<close>, \<^verbatim>\<open>max\<close>, \<^verbatim>\<open>min\<close> and the operators carry
  the prefix \<open>Tuple_\<close>; \<^verbatim>\<open>size()\<close> is \<open>getNumDims\<close>; a parameter \<^verbatim>\<open>dim\<close> of the
  source is written \<open>dname\<close>.

  A failed \<^verbatim>\<open>assert\<close> is the error \<open>ContractViolation\<close>; the exception of
  \<^verbatim>\<open>std::deque::at\<close> is \<open>OutOfRange\<close>; an access outside a C array, which the
  language leaves undefined, is \<open>OutOfBounds\<close>.
\<close>

datatype error = ContractViolation | OutOfRange | OutOfBounds

type_synonym Scalar = "string \<times> int"

text \<open>
  The fields \<^verbatim>\<open>_q\<close> and \<^verbatim>\<open>_firstInner\<close>. The member \<^verbatim>\<open>_map\<close> indexes the value
  slots of \<^verbatim>\<open>_q\<close> by name and is rebuilt or extended after every change of \<^verbatim>\<open>_q\<close>;
  it is the function \<open>map_of (tq t)\<close>, and its size is the number of dimensions.
  Dimensions are only ever added by \<^verbatim>\<open>addDimBack\<close> and \<^verbatim>\<open>addDimFront\<close>, which
  keep the names distinct (\<open>wf_Tuple\<close>).
\<close>

record Tuple =
  tq :: "Scalar list"
  firstInner :: bool

definition wf_Tuple :: "Tuple \<Rightarrow> bool" where
  "wf_Tuple t = distinct (map fst (tq t))"

text \<open>The default constructor: no dimensions, \<^verbatim>\<open>_firstInner = true\<close>.\<close>

definition Tuple_new :: Tuple where
  "Tuple_new = \<lparr>tq = [], firstInner = True\<rparr>"

definition getNumDims :: "Tuple \<Rightarrow> int" where
  "getNumDims t = int (length (tq t))"

text \<open>\<^verbatim>\<open>lookup(dim)\<close>: the value slot of a name, or null.\<close>

definition lookup :: "Tuple \<Rightarrow> string \<Rightarrow> int option" where
  "lookup t dname = map_of (tq t) dname"

text \<open>The assignment \<^verbatim>\<open>*p = val\<close> through the slot pointer of \<open>dname\<close>.\<close>

fun assign :: "string \<Rightarrow> int \<Rightarrow> Scalar list \<Rightarrow> Scalar list" where
  "assign dname val [] = []"
| "assign dname val (i # rest) =
     (if fst i = dname then (fst i, val) # rest else i # assign dname val rest)"

definition addDimBack :: "Tuple \<Rightarrow> string \<Rightarrow> int \<Rightarrow> Tuple" where
  "addDimBack t dname val =
     (case lookup t dname of
        Some p \<Rightarrow> t\<lparr>tq := assign dname val (tq t)\<rparr>
      | None \<Rightarrow> t\<lparr>tq := tq t @ [(dname, val)]\<rparr>)"

definition addDimFront :: "Tuple \<Rightarrow> string \<Rightarrow> int \<Rightarrow> Tuple" where
  "addDimFront t dname val =
     (case lookup t dname of
        Some p \<Rightarrow> t\<lparr>tq := assign dname val (tq t)\<rparr>
      | None \<Rightarrow> t\<lparr>tq := (dname, val) # tq t\<rparr>)"

text \<open>\<^verbatim>\<open>setVal(dim, val)\<close> and \<^verbatim>\<open>getVal(dim)\<close> assert that the name exists.\<close>

definition setVal :: "Tuple \<Rightarrow> string \<Rightarrow> int \<Rightarrow> error + Tuple" where
  "setVal t dname val =
     (case lookup t dname of
        None \<Rightarrow> Inl ContractViolation
      | Some p \<Rightarrow> Inr (t\<lparr>tq := assign dname val (tq t)\<rparr>))"

definition getVal :: "Tuple \<Rightarrow> string \<Rightarrow> error + int" where
  "getVal t dname =
     (case lookup t dname of None \<Rightarrow> Inl ContractViolation | Some v \<Rightarrow> Inr v)"

subsection \<open>Union and removal\<close>

text \<open>\<^verbatim>\<open>makeUnionWith\<close>: the loop over \<^verbatim>\<open>rhs._q\<close>, starting from a copy of \<^verbatim>\<open>this\<close>.\<close>

definition makeUnionWith :: "Tuple \<Rightarrow> Tuple \<Rightarrow> Tuple" where
  "makeUnionWith t rhs =
     fold (\<lambda>i u. case lookup u (fst i) of
                    None \<Rightarrow> addDimBack u (fst i) (snd i)
                  | Some p \<Rightarrow> u)
          (tq rhs) t"

text \<open>\<^verbatim>\<open>removeDim\<close>: the loop over \<^verbatim>\<open>_q\<close>, starting from a default-constructed tuple.\<close>

definition removeDim :: "Tuple \<Rightarrow> string \<Rightarrow> Tuple" where
  "removeDim t dname =
     fold (\<lambda>i newt. if dname \<noteq> fst i then addDimBack newt (fst i) (snd i) else newt)
          (tq t) Tuple_new"

subsection \<open>Reductions\<close>

text \<open>
  \<^verbatim>\<open>reduce\<close>: the loop state is \<^verbatim>\<open>(result, n)\<close>, starting at \<^verbatim>\<open>(0, 0)\<close>; the first
  element replaces \<^verbatim>\<open>result\<close>, every later one is combined with it.
\<close>

definition reduce :: "Tuple \<Rightarrow> (int \<Rightarrow> int \<Rightarrow> int) \<Rightarrow> int" where
  "reduce t reducer =
     fst (fold (\<lambda>i (result, n). ((if n = (0::int) then snd i else reducer result (snd i)), n + 1))
               (tq t) (0, 0))"

definition Tuple_sum :: "Tuple \<Rightarrow> int" where
  "Tuple_sum t = reduce t (\<lambda>lhs rhs. lhs + rhs)"

text \<open>\<^verbatim>\<open>product\<close> tests \<^verbatim>\<open>_map.size()\<close>, the number of dimensions.\<close>

definition Tuple_product :: "Tuple \<Rightarrow> int" where
  "Tuple_product t =
     (if length (tq t) \<noteq> 0 then reduce t (\<lambda>lhs rhs. lhs * rhs) else 1)"

definition Tuple_max :: "Tuple \<Rightarrow> int" where
  "Tuple_max t = reduce t (\<lambda>lhs rhs. max lhs rhs)"

definition Tuple_min :: "Tuple \<Rightarrow> int" where
  "Tuple_min t = reduce t (\<lambda>lhs rhs. min lhs rhs)"

subsection \<open>Scalar-broadcast elementwise operations\<close>

text \<open>
  \<^verbatim>\<open>mapElements\<close>: \<^verbatim>\<open>for (auto i : newt._q)\<close> copies each element into the loop
  variable \<^verbatim>\<open>i\<close>; \<^verbatim>\<open>tval\<close> refers to the value of that copy, so the assignment
  \<^verbatim>\<open>tval = func(tval, rhs)\<close> changes the copy, which is dropped at the end of the
  iteration, and \<^verbatim>\<open>newt\<close> is left as it was.
\<close>

definition mapElements :: "Tuple \<Rightarrow> (int \<Rightarrow> int \<Rightarrow> int) \<Rightarrow> int \<Rightarrow> Tuple" where
  "mapElements t func rhs =
     fold (\<lambda>i newt. let i' = (fst i, func (snd i) rhs) in newt) (tq t) t"

definition addElements :: "Tuple \<Rightarrow> int \<Rightarrow> Tuple" where
  "addElements t rhs = mapElements t (\<lambda>lhs rhs. lhs + rhs) rhs"

definition multElements :: "Tuple \<Rightarrow> int \<Rightarrow> Tuple" where
  "multElements t rhs = mapElements t (\<lambda>lhs rhs. lhs * rhs) rhs"

definition maxElements :: "Tuple \<Rightarrow> int \<Rightarrow> Tuple" where
  "maxElements t rhs = mapElements t (\<lambda>lhs rhs. max lhs rhs) rhs"

definition minElements :: "Tuple \<Rightarrow> int \<Rightarrow> Tuple" where
  "minElements t rhs = mapElements t (\<lambda>lhs rhs. min lhs rhs) rhs"

subsection \<open>Comparisons\<close>

text \<open>
  \<^verbatim>\<open>areDimsSame\<close>: equal sizes, and every name of \<^verbatim>\<open>this\<close> is found in \<open>rhs\<close>.
\<close>

definition areDimsSame :: "Tuple \<Rightarrow> Tuple \<Rightarrow> bool" where
  "areDimsSame t rhs =
     (if getNumDims t \<noteq> getNumDims rhs then False
      else list_all (\<lambda>i. lookup rhs (fst i) \<noteq> None) (tq t))"

text \<open>\<^verbatim>\<open>operator==\<close>: the loop over \<^verbatim>\<open>_q\<close> after the test of the dimensions.\<close>

fun eq_loop :: "Scalar list \<Rightarrow> Tuple \<Rightarrow> error + bool" where
  "eq_loop [] rhs = Inr True"
| "eq_loop (i # rest) rhs =
     (case getVal rhs (fst i) of
        Inl e \<Rightarrow> Inl e
      | Inr rval \<Rightarrow> if snd i \<noteq> rval then Inr False else eq_loop rest rhs)"

definition Tuple_eq :: "Tuple \<Rightarrow> Tuple \<Rightarrow> error + bool" where
  "Tuple_eq t rhs = (if \<not> areDimsSame t rhs then Inr False else eq_loop (tq t) rhs)"

text \<open>
  \<^verbatim>\<open>makeDimStr(separator, prefix, suffix)\<close>: the loop state is the stream and the
  counter \<open>n\<close>. \<^verbatim>\<open>operator<\<close> calls it with the defaults \<open>", "\<close>, \<open>""\<close>, \<open>""\<close>.
\<close>

definition makeDimStr :: "Tuple \<Rightarrow> string \<Rightarrow> string \<Rightarrow> string \<Rightarrow> string" where
  "makeDimStr t separator prefix suffix =
     fst (fold (\<lambda>i (oss, n). ((if n \<noteq> (0::int) then oss @ separator else oss)
                                   @ prefix @ fst i @ suffix, n + 1))
               (tq t) ([], 0))"

text \<open>
  \<^verbatim>\<open>operator<\<close>: the sizes first; then the values in the order of \<^verbatim>\<open>this\<close> when
  the dimensions are the same; else the strings of names, compared as
  \<^verbatim>\<open>std::string\<close> does (lexicographically, by unsigned character value).
\<close>

fun less_loop :: "Scalar list \<Rightarrow> Tuple \<Rightarrow> error + bool" where
  "less_loop [] rhs = Inr False"
| "less_loop (i # rest) rhs =
     (case getVal rhs (fst i) of
        Inl e \<Rightarrow> Inl e
      | Inr rval \<Rightarrow>
          if snd i < rval then Inr True
          else if snd i > rval then Inr False
          else less_loop rest rhs)"

definition Tuple_less :: "Tuple \<Rightarrow> Tuple \<Rightarrow> error + bool" where
  "Tuple_less t rhs =
     (if getNumDims t < getNumDims rhs then Inr True
      else if getNumDims t > getNumDims rhs then Inr False
      else if areDimsSame t rhs then less_loop (tq t) rhs
      else Inr (makeDimStr t '', '' [] [] < makeDimStr rhs '', '' [] []))"

text \<open>The derived operators \<^verbatim>\<open>!=\<close>, \<^verbatim>\<open><=\<close>, \<^verbatim>\<open>>\<close> and \<^verbatim>\<open>>=\<close>.\<close>

definition Tuple_ne :: "Tuple \<Rightarrow> Tuple \<Rightarrow> error + bool" where
  "Tuple_ne t rhs = (case Tuple_eq t rhs of Inl e \<Rightarrow> Inl e | Inr b \<Rightarrow> Inr (\<not> b))"

definition Tuple_le :: "Tuple \<Rightarrow> Tuple \<Rightarrow> error + bool" where
  "Tuple_le t rhs =
     (case Tuple_eq t rhs of
        Inl e \<Rightarrow> Inl e
      | Inr b \<Rightarrow> if b then Inr True else Tuple_less t rhs)"

definition Tuple_gt :: "Tuple \<Rightarrow> Tuple \<Rightarrow> error + bool" where
  "Tuple_gt t rhs = (case Tuple_le t rhs of Inl e \<Rightarrow> Inl e | Inr b \<Rightarrow> Inr (\<not> b))"

definition Tuple_ge :: "Tuple \<Rightarrow> Tuple \<Rightarrow> error + bool" where
  "Tuple_ge t rhs = (case Tuple_less t rhs of Inl e \<Rightarrow> Inl e | Inr b \<Rightarrow> Inr (\<not> b))"

text \<open>
  The spec's words for the string of \<^verbatim>\<open>makeDimStr()\<close>: the names, joined by a comma
  and a space.
\<close>

fun comma_joined :: "string list \<Rightarrow> string" where
  "comma_joined [] = []"
| "comma_joined [n] = n"
| "comma_joined (n # m # ns) = n @ '', '' @ comma_joined (m # ns)"

subsection \<open>Layout\<close>

text \<open>The conversion \<^verbatim>\<open>size_t(v)\<close> of a signed value on a 64-bit target.\<close>

definition size_t :: "int \<Rightarrow> 64 word" where
  "size_t v = word_of_int v"

text \<open>
  The loop of \<^verbatim>\<open>layout\<close> over the dimension index \<open>di\<close>, with the loop state
  \<^verbatim>\<open>idx\<close> and \<^verbatim>\<open>prevSize\<close>. The loop ends at \<^verbatim>\<open>beyondLastDim\<close>; \<^verbatim>\<open>_q.at(di)\<close>
  throws outside the deque. The asserts \<^verbatim>\<open>dsize >= 0\<close>, \<^verbatim>\<open>offset >= 0\<close> and
  \<^verbatim>\<open>idx >= 0\<close> are on unsigned values and cannot fail; the other three are the
  tests below.
\<close>

function layout_loop ::
  "Tuple \<Rightarrow> Tuple \<Rightarrow> int \<Rightarrow> 64 word \<Rightarrow> 64 word \<Rightarrow> error + 64 word" where
  "layout_loop t offsets di idx prevSize =
     (if di = (if firstInner t then getNumDims t else - 1) then Inr idx
      else if di < 0 \<or> getNumDims t \<le> di then Inl OutOfRange
      else
        let i = tq t ! nat di;
            dname = fst i;
            dsize = size_t (snd i);
            offset = (case lookup offsets dname of Some op \<Rightarrow> size_t op | None \<Rightarrow> 0)
        in if \<not> offset < dsize then Inl ContractViolation
           else
             let idx' = idx + offset * prevSize
             in if \<not> idx' < size_t (Tuple_product t) then Inl ContractViolation
                else
                  let prevSize' = prevSize * dsize
                  in if \<not> prevSize' \<le> size_t (Tuple_product t) then Inl ContractViolation
                     else layout_loop t offsets (di + (if firstInner t then 1 else - 1))
                            idx' prevSize')"
  by pat_completeness auto
termination
  by (relation "measure (\<lambda>(t, offsets, di, idx, prevSize).
        if firstInner t then nat (getNumDims t - di) else nat (di + 1))") auto

declare layout_loop.simps [simp del]

definition layout :: "Tuple \<Rightarrow> Tuple \<Rightarrow> bool \<Rightarrow> error + 64 word" where
  "layout t offsets strictRhs =
     (if strictRhs \<and> \<not> areDimsSame t offsets then Inl ContractViolation
      else layout_loop t offsets (if firstInner t then 0 else getNumDims t - 1) 0 1)"

text \<open>
  The spec's words for the linearization: the dimensions in orientation order
  (dimension 0 first when first-inner, the last dimension first otherwise), and for
  each one \<open>index += offsetInDim * runningProduct; runningProduct *= extentOfDim\<close>,
  a missing offset being 0.
\<close>

fun linearize_acc ::
  "Scalar list \<Rightarrow> Tuple \<Rightarrow> 64 word \<times> 64 word \<Rightarrow> 64 word \<times> 64 word" where
  "linearize_acc [] offsets (index, runningProduct) = (index, runningProduct)"
| "linearize_acc (d # ds) offsets (index, runningProduct) =
     linearize_acc ds offsets
       (index + (case lookup offsets (fst d) of Some v \<Rightarrow> size_t v | None \<Rightarrow> 0) * runningProduct,
        runningProduct * size_t (snd d))"

definition linearize :: "Tuple \<Rightarrow> Tuple \<Rightarrow> 64 word" where
  "linearize t offsets =
     fst (linearize_acc (if firstInner t then tq t else rev (tq t)) offsets (0, 1))"

subsection \<open>Visiting all points\<close>

text \<open>
  The recursive \<^verbatim>\<open>visitAllPoints(visitor, curDimNum, step, tp)\<close>. The calls of the
  visitor are recorded: the state is \<^verbatim>\<open>tp\<close>, which the callee changes in place, with
  the list of the tuples passed to the visitor so far. The loop variable \<open>i\<close> of the
  \<^verbatim>\<open>for\<close> loop is an argument: the call of the source is the one with \<open>i = 0\<close>, and
  each iteration continues with \<open>i + 1\<close>. Nothing bounds \<open>step\<close>, so the recursion
  need not end: not returning is \<open>None\<close>.
\<close>

partial_function (option) visitAllPoints_rec ::
  "Tuple \<Rightarrow> int \<Rightarrow> int \<Rightarrow> int \<Rightarrow> Tuple \<times> Tuple list
     \<Rightarrow> (error + Tuple \<times> Tuple list) option" where
  "visitAllPoints_rec t curDimNum step i st =
     (if curDimNum < 0 \<or> curDimNum \<ge> getNumDims t then Some (Inr (fst st, snd st @ [fst st]))
      else
        let sc = tq t ! nat curDimNum;
            tdim = fst sc;
            dsize = snd sc
        in if i < dsize then
             (case setVal (fst st) tdim i of
                Inl e \<Rightarrow> Some (Inl e)
              | Inr tp \<Rightarrow>
                  Option.bind (visitAllPoints_rec t (curDimNum + step) step 0 (tp, snd st))
                    (\<lambda>r. case r of
                            Inl e \<Rightarrow> Some (Inl e)
                          | Inr st' \<Rightarrow> visitAllPoints_rec t curDimNum step (i + 1) st'))
           else Some (Inr st))"

declare visitAllPoints_rec.simps [code]

text \<open>
  The public \<^verbatim>\<open>visitAllPoints(visitor)\<close>; the result is the list of the tuples
  passed to the visitor, in the order of the calls.
\<close>

definition visitAllPoints :: "Tuple \<Rightarrow> (error + Tuple list) option" where
  "visitAllPoints t =
     (let tp = t
      in if length (tq t) = 0 then Some (Inr [tp])
         else
           map_option (map_sum id snd)
             (if firstInner t then visitAllPoints_rec t (getNumDims t - 1) (- 1) 0 (tp, [])
              else visitAllPoints_rec t 0 1 0 (tp, [])))"

section \<open>Folded vectors (src/realv.hpp)\<close>

text \<open>
  A \<^verbatim>\<open>real_vec_t\<close> holds the array \<^verbatim>\<open>u.r[VLEN]\<close>: a list of lanes, with the
  build-time constant \<^verbatim>\<open>VLEN\<close> as a parameter. The cross-lane operations only
  move lane values, so they are modelled for any type of lane. \<^verbatim>\<open>u.r[i]\<close> is a plain
  array access with a signed index.
\<close>

definition rd :: "'a list \<Rightarrow> int \<Rightarrow> error + 'a" where
  "rd xs i = (if 0 \<le> i \<and> i < int (length xs) then Inr (xs ! nat i) else Inl OutOfBounds)"

definition wr :: "'a list \<Rightarrow> int \<Rightarrow> 'a \<Rightarrow> error + 'a list" where
  "wr xs i v = (if 0 \<le> i \<and> i < int (length xs) then Inr (xs[nat i := v]) else Inl OutOfBounds)"

text \<open>
  \<^verbatim>\<open>real_vec_align<count>(res, a, b)\<close>, the element-wise branch
  (\<^verbatim>\<open>NO_INTRINSICS\<close>): the two loops, each with its loop variable \<open>i\<close>.
\<close>

function align_lo :: "int \<Rightarrow> int \<Rightarrow> int \<Rightarrow> 'a list \<Rightarrow> 'a list \<Rightarrow> error + 'a list" where
  "align_lo VLEN count i res tmpb =
     (if i < VLEN - count then
        (case rd tmpb (i + count) of
           Inl e \<Rightarrow> Inl e
         | Inr v \<Rightarrow>
             (case wr res i v of
                Inl e \<Rightarrow> Inl e
              | Inr res' \<Rightarrow> align_lo VLEN count (i + 1) res' tmpb))
      else Inr res)"
  by pat_completeness auto
termination
  by (relation "measure (\<lambda>(VLEN, count, i, res, tmpb). nat (VLEN - count - i))") auto

function align_hi :: "int \<Rightarrow> int \<Rightarrow> int \<Rightarrow> 'a list \<Rightarrow> 'a list \<Rightarrow> error + 'a list" where
  "align_hi VLEN count i res tmpa =
     (if i < VLEN then
        (case rd tmpa (i + count - VLEN) of
           Inl e \<Rightarrow> Inl e
         | Inr v \<Rightarrow>
             (case wr res i v of
                Inl e \<Rightarrow> Inl e
              | Inr res' \<Rightarrow> align_hi VLEN count (i + 1) res' tmpa))
      else Inr res)"
  by pat_completeness auto
termination
  by (relation "measure (\<lambda>(VLEN, count, i, res, tmpa). nat (VLEN - i))") auto

declare align_lo.simps [simp del] align_hi.simps [simp del]

definition real_vec_align ::
  "int \<Rightarrow> int \<Rightarrow> 'a list \<Rightarrow> 'a list \<Rightarrow> 'a list \<Rightarrow> error + 'a list" where
  "real_vec_align VLEN count res a b =
     (let tmpa = a; tmpb = b in
      case align_lo VLEN count 0 res tmpb of
        Inl e \<Rightarrow> Inl e
      | Inr res1 \<Rightarrow> align_hi VLEN count (VLEN - count) res1 tmpa)"

text \<open>
  The lanes hold values of \<^verbatim>\<open>real_t\<close>, which \<^verbatim>\<open>REAL_BYTES\<close> makes \<^verbatim>\<open>float\<close> or
  \<^verbatim>\<open>double\<close>: the binary floating-point formats of 32 and 64 bits. A format is its
  precision (the number of bits of the significand) and its largest exponent; it is a
  parameter of the operations.
\<close>

record format =
  prec :: nat
  emax :: int

definition binary32 :: format where
  "binary32 = \<lparr>prec = 24, emax = 127\<rparr>"

definition binary64 :: format where
  "binary64 = \<lparr>prec = 53, emax = 1023\<rparr>"

text \<open>
  The exponent of the last bit of the subnormal numbers, and that of the last bit of the
  largest numbers.
\<close>

definition etiny :: "format \<Rightarrow> int" where
  "etiny f = 2 - emax f - int (prec f)"

definition etop :: "format \<Rightarrow> int" where
  "etop f = emax f - int (prec f) + 1"

text \<open>
  A value is not-a-number, an infinity with its sign, or \<open>Finite s m e\<close>, the number
  \<open>(-1)^s * m * 2^e\<close>; both zeros are there, \<open>Finite False 0 e\<close> and
  \<open>Finite True 0 e\<close>. The values of a format have \<open>m < 2^prec\<close> and \<open>e\<close> between
  \<^verbatim>\<open>etiny\<close> and \<^verbatim>\<open>etop\<close>. One number may be written with several pairs \<open>(m, e)\<close>; the
  operations below depend on the number only.
\<close>

datatype real_t = NaN | Infinity bool | Finite bool nat int

fun is_real_t :: "format \<Rightarrow> real_t \<Rightarrow> bool" where
  "is_real_t f (Finite s m e) = (m < 2 ^ prec f \<and> etiny f \<le> e \<and> e \<le> etop f)"
| "is_real_t f x = True"

definition with_sign :: "bool \<Rightarrow> nat \<Rightarrow> int" where
  "with_sign s m = (if s then - int m else int m)"

fun valof :: "real_t \<Rightarrow> real" where
  "valof (Finite s m e) = of_int (with_sign s m) * 2 powi e"
| "valof x = 0"

fun sign_bit :: "real_t \<Rightarrow> bool" where
  "sign_bit (Finite s m e) = s"
| "sign_bit (Infinity s) = s"
| "sign_bit NaN = False"

text \<open>
  Rounding to nearest, ties to even, of the number \<open>(-1)^s * M * 2^E\<close>: \<^verbatim>\<open>bits\<close> is
  the length of \<open>M\<close> in binary, \<^verbatim>\<open>round_shift\<close> drops the last \<open>k\<close> bits of \<open>M\<close>,
  and \<^verbatim>\<open>round_t\<close> keeps \<^verbatim>\<open>prec\<close> bits (fewer for a subnormal result) and gives an
  infinity when the rounded number is beyond the largest one of the format.
\<close>

fun bits :: "nat \<Rightarrow> nat" where
  "bits n = (if n = 0 then 0 else Suc (bits (n div 2)))"

declare bits.simps [simp del]

definition round_shift :: "nat \<Rightarrow> nat \<Rightarrow> nat" where
  "round_shift M k =
     (let q = M div 2 ^ k; r = M mod 2 ^ k
      in if 2 ^ k < 2 * r \<or> (2 * r = 2 ^ k \<and> odd q) then q + 1 else q)"

definition round_t :: "format \<Rightarrow> bool \<Rightarrow> nat \<Rightarrow> int \<Rightarrow> real_t" where
  "round_t f s M E =
     (if M = 0 then Finite s 0 (etiny f)
      else
        let e = max (E + int (bits M) - int (prec f)) (etiny f);
            m = (if e \<le> E then M * 2 ^ nat (E - e) else round_shift M (nat (e - E)));
            e = (if m = 2 ^ prec f then e + 1 else e);
            m = (if m = 2 ^ prec f then 2 ^ (prec f - 1) else m)
        in if etop f < e then Infinity s else Finite s m e)"

text \<open>
  The operations of \<^verbatim>\<open>within_tolerance\<close>: \<open>x - y\<close> and \<open>x * y\<close>, each the exact
  result rounded once, \<^verbatim>\<open>fabs\<close>, and the comparisons \<open><\<close> and \<open>>\<close>, which are false
  when an operand is not a number. \<open>1.0\<close> is \<^verbatim>\<open>one_t\<close>.
\<close>

fun fsub :: "format \<Rightarrow> real_t \<Rightarrow> real_t \<Rightarrow> real_t" where
  "fsub f NaN y = NaN"
| "fsub f x NaN = NaN"
| "fsub f (Infinity s) (Infinity s') = (if s = s' then NaN else Infinity s)"
| "fsub f (Infinity s) (Finite s' m' e') = Infinity s"
| "fsub f (Finite s m e) (Infinity s') = Infinity (\<not> s')"
| "fsub f (Finite s m e) (Finite s' m' e') =
     (let E = min e e';
          I = with_sign s m * 2 ^ nat (e - E) - with_sign s' m' * 2 ^ nat (e' - E)
      in if I = 0 then Finite (s \<and> \<not> s') 0 (etiny f)
         else round_t f (I < 0) (nat \<bar>I\<bar>) E)"

fun fmul :: "format \<Rightarrow> real_t \<Rightarrow> real_t \<Rightarrow> real_t" where
  "fmul f NaN y = NaN"
| "fmul f x NaN = NaN"
| "fmul f (Infinity s) (Infinity s') = Infinity (s \<noteq> s')"
| "fmul f (Infinity s) (Finite s' m' e') = (if m' = 0 then NaN else Infinity (s \<noteq> s'))"
| "fmul f (Finite s m e) (Infinity s') = (if m = 0 then NaN else Infinity (s \<noteq> s'))"
| "fmul f (Finite s m e) (Finite s' m' e') = round_t f (s \<noteq> s') (m * m') (e + e')"

fun fabs :: "real_t \<Rightarrow> real_t" where
  "fabs NaN = NaN"
| "fabs (Infinity s) = Infinity False"
| "fabs (Finite s m e) = Finite False m e"

fun less_t :: "real_t \<Rightarrow> real_t \<Rightarrow> bool" where
  "less_t NaN y = False"
| "less_t x NaN = False"
| "less_t (Infinity s) (Infinity s') = (s \<and> \<not> s')"
| "less_t (Infinity s) (Finite s' m' e') = s"
| "less_t (Finite s m e) (Infinity s') = (\<not> s')"
| "less_t (Finite s m e) (Finite s' m' e') =
     (with_sign s m * 2 ^ nat (e - min e e') < with_sign s' m' * 2 ^ nat (e' - min e e'))"

definition greater_t :: "real_t \<Rightarrow> real_t \<Rightarrow> bool" where
  "greater_t x y = less_t y x"

definition one_t :: real_t where
  "one_t = Finite False 1 0"

text \<open>
  \<^verbatim>\<open>within_tolerance\<close> on two scalars of type \<^verbatim>\<open>T = real_t\<close>. \<^verbatim>\<open>val - ref\<close> and
  \<^verbatim>\<open>ref * epsilon\<close> are computed in \<^verbatim>\<open>T\<close>; the conversions to \<^verbatim>\<open>double\<close> (for
  \<^verbatim>\<open>adiff\<close>, \<^verbatim>\<open>fabs\<close> and the comparisons) and back to \<^verbatim>\<open>T\<close> (for \<^verbatim>\<open>epsilon\<close>) change
  no value. The parameter \<^verbatim>\<open>epsilon\<close> is overwritten when \<^verbatim>\<open>fabs(ref) > 1.0\<close>.
\<close>

definition within_tolerance :: "format \<Rightarrow> real_t \<Rightarrow> real_t \<Rightarrow> real_t \<Rightarrow> bool" where
  "within_tolerance f val ref epsilon =
     (let adiff = fabs (fsub f val ref);
          epsilon = (if greater_t (fabs ref) one_t then fabs (fmul f ref epsilon) else epsilon);
          ok = less_t adiff epsilon
      in ok)"

text \<open>\<^verbatim>\<open>within_tolerance\<close> on two vectors: the loop over the lanes \<open>j\<close>.\<close>

function within_tolerance_lanes ::
  "format \<Rightarrow> int \<Rightarrow> int \<Rightarrow> real_t list \<Rightarrow> real_t list \<Rightarrow> real_t list \<Rightarrow> error + bool" where
  "within_tolerance_lanes f VLEN j val ref epsilon =
     (if j < VLEN then
        (case rd val j of
           Inl e \<Rightarrow> Inl e
         | Inr v \<Rightarrow>
             (case rd ref j of
                Inl e \<Rightarrow> Inl e
              | Inr r \<Rightarrow>
                  (case rd epsilon j of
                     Inl e \<Rightarrow> Inl e
                   | Inr eps \<Rightarrow>
                       if \<not> within_tolerance f v r eps then Inr False
                       else within_tolerance_lanes f VLEN (j + 1) val ref epsilon)))
      else Inr True)"
  by pat_completeness auto
termination
  by (relation "measure (\<lambda>(f, VLEN, j, val, ref, epsilon). nat (VLEN - j))") auto

declare within_tolerance_lanes.simps [simp del]

definition within_tolerance_vec ::
  "format \<Rightarrow> int \<Rightarrow> real_t list \<Rightarrow> real_t list \<Rightarrow> real_t list \<Rightarrow> error + bool" where
  "within_tolerance_vec f VLEN val ref epsilon = within_tolerance_lanes f VLEN 0 val ref epsilon"

section \<open>Auxiliary notions for the proofs\<close>

text \<open>The dimensions in the order in which \<^verbatim>\<open>layout\<close> visits them.\<close>

definition inner_first :: "Tuple \<Rightarrow> Scalar list" where
  "inner_first t = (if firstInner t then tq t else rev (tq t))"

text \<open>The value of a tuple in a dimension, 0 when it lacks the dimension.\<close>

definition offset_in :: "Tuple \<Rightarrow> string \<Rightarrow> int" where
  "offset_in offsets dname = (case lookup offsets dname of Some v \<Rightarrow> v | None \<Rightarrow> 0)"

text \<open>The body of the loop of \<^verbatim>\<open>layout\<close> as a recursion over the list of dimensions.\<close>

fun layout_list ::
  "Scalar list \<Rightarrow> Tuple \<Rightarrow> 64 word \<Rightarrow> 64 word \<Rightarrow> 64 word \<Rightarrow> error + 64 word" where
  "layout_list [] offsets P idx prevSize = Inr idx"
| "layout_list (i # rest) offsets P idx prevSize =
     (if \<not> size_t (offset_in offsets (fst i)) < size_t (snd i) then Inl ContractViolation
      else if \<not> idx + size_t (offset_in offsets (fst i)) * prevSize < P
        then Inl ContractViolation
      else if \<not> prevSize * size_t (snd i) \<le> P then Inl ContractViolation
      else layout_list rest offsets P (idx + size_t (offset_in offsets (fst i)) * prevSize)
             (prevSize * size_t (snd i)))"

text \<open>
  The mixed-radix value of the offsets over a list of dimensions, innermost first, in
  unbounded integers.
\<close>

fun radix_value :: "Scalar list \<Rightarrow> Tuple \<Rightarrow> int" where
  "radix_value [] offsets = 0"
| "radix_value (i # rest) offsets = offset_in offsets (fst i) + snd i * radix_value rest offsets"

text \<open>
  For \<^verbatim>\<open>visitAllPoints\<close>: the tuple that \<^verbatim>\<open>setVal\<close> leaves when the name exists;
  the dimensions that the recursion goes through from \<open>curDimNum\<close> in steps of
  \<open>step\<close>, outermost loop first; the points of the loop nest over such a list, in
  the order of the loops, and the rest of them from the value \<open>i\<close> of the
  outermost loop on.
\<close>

definition set_slot :: "Tuple \<Rightarrow> string \<Rightarrow> int \<Rightarrow> Tuple" where
  "set_slot tp dname v = tp\<lparr>tq := assign dname v (tq tp)\<rparr>"

fun is_path :: "Tuple \<Rightarrow> int \<Rightarrow> int \<Rightarrow> Scalar list \<Rightarrow> bool" where
  "is_path t cur step [] = (cur < 0 \<or> getNumDims t \<le> cur)"
| "is_path t cur step (d # ds) =
     (0 \<le> cur \<and> cur < getNumDims t \<and> d = tq t ! nat cur \<and> is_path t (cur + step) step ds)"

fun enum_points :: "Scalar list \<Rightarrow> Tuple \<Rightarrow> Tuple list" where
  "enum_points [] tp = [tp]"
| "enum_points (d # ds) tp =
     concat (map (\<lambda>j. enum_points ds (set_slot tp (fst d) j)) [0..snd d - 1])"

fun enum_from :: "Scalar list \<Rightarrow> Tuple \<Rightarrow> int \<Rightarrow> Tuple list" where
  "enum_from [] tp i = [tp]"
| "enum_from (d # ds) tp i =
     concat (map (\<lambda>j. enum_points ds (set_slot tp (fst d) j)) [i..snd d - 1])"

text \<open>
  Two tuples with the same names in the same order and the same flag, which agree on
  every name outside a list of dimensions.
\<close>

definition same_outside :: "Scalar list \<Rightarrow> Tuple \<Rightarrow> Tuple \<Rightarrow> bool" where
  "same_outside ds tp tp' =
     (map fst (tq tp') = map fst (tq tp) \<and> firstInner tp' = firstInner tp
      \<and> (\<forall>n. n \<notin> fst ` set ds \<longrightarrow> lookup tp' n = lookup tp n))"

text \<open>
  The mixed-radix value of the offsets over a list of dimensions, outermost first
  (Horner's scheme).
\<close>

fun horner_value :: "Scalar list \<Rightarrow> Tuple \<Rightarrow> int \<Rightarrow> int" where
  "horner_value [] offsets a = a"
| "horner_value (d # ds) offsets a =
     horner_value ds offsets (a * snd d + offset_in offsets (fst d))"

section \<open>Properties\<close>

subsection \<open>Lookup and the add operations\<close>

lemma lookup_None_iff: "lookup t d = None \<longleftrightarrow> d \<notin> fst ` set (tq t)"
  by (simp add: lookup_def map_of_eq_None_iff)

lemma tq_addDimBack_fresh:
  "dname \<notin> fst ` set (tq t) \<Longrightarrow> tq (addDimBack t dname v) = tq t @ [(dname, v)]"
  by (simp add: addDimBack_def lookup_def map_of_eq_None_iff[THEN iffD2])

lemma firstInner_addDimBack: "firstInner (addDimBack t dname v) = firstInner t"
  by (simp add: addDimBack_def split: option.splits)

subsection \<open>Reductions of a tuple without dimensions\<close>

text \<open>
  C9. For a tuple with zero dimensions, \<^verbatim>\<open>max()\<close>, \<^verbatim>\<open>min()\<close> and \<^verbatim>\<open>sum()\<close> return 0,
  the initial value of the accumulator of \<^verbatim>\<open>reduce\<close>, and no error is signalled;
  \<^verbatim>\<open>product()\<close> alone tests for the empty tuple and returns 1.
\<close>

theorem reduce_no_dims:
  "tq t = [] \<Longrightarrow>
     Tuple_max t = 0 \<and> Tuple_min t = 0 \<and> Tuple_sum t = 0 \<and> Tuple_product t = 1
     \<and> reduce t f = 0"
  by (simp add: Tuple_max_def Tuple_min_def Tuple_sum_def Tuple_product_def reduce_def)

theorem reduce_no_dims_witness:
  "tq Tuple_new = [] \<and> Tuple_max Tuple_new = 0 \<and> Tuple_min Tuple_new = 0
     \<and> Tuple_sum Tuple_new = 0 \<and> Tuple_product Tuple_new = 1"
  using reduce_no_dims [of Tuple_new] by (simp add: Tuple_new_def)

subsection \<open>Removing a dimension\<close>

lemma removeDim_fold:
  "distinct (map fst xs) \<Longrightarrow> fst ` set xs \<inter> fst ` set (tq acc) = {} \<Longrightarrow>
   tq (fold (\<lambda>i newt. if d \<noteq> fst i then addDimBack newt (fst i) (snd i) else newt) xs acc)
     = tq acc @ filter (\<lambda>i. fst i \<noteq> d) xs
   \<and> firstInner (fold (\<lambda>i newt. if d \<noteq> fst i then addDimBack newt (fst i) (snd i) else newt) xs acc)
     = firstInner acc"
proof (induction xs arbitrary: acc)
  case Nil
  then show ?case by simp
next
  case (Cons x xs)
  have fresh: "fst x \<notin> fst ` set (tq acc)" using Cons.prems(2) by auto
  show ?case
  proof (cases "d = fst x")
    case True
    then show ?thesis using Cons by auto
  next
    case False
    have "fst ` set xs \<inter> fst ` set (tq (addDimBack acc (fst x) (snd x))) = {}"
      using Cons.prems fresh by (auto simp: tq_addDimBack_fresh)
    then show ?thesis
      using Cons.IH[of "addDimBack acc (fst x) (snd x)"] Cons.prems(1) False fresh
      by (simp add: tq_addDimBack_fresh firstInner_addDimBack)
  qed
qed

text \<open>
  C10. For every tuple \<open>t\<close> and name \<open>d\<close>, \<^verbatim>\<open>t.removeDim(d)\<close> keeps the remaining
  dimensions in their order with their values, and keeps all of them when \<open>d\<close> is
  absent; the orientation flag of the result is always the default \<open>true\<close>, whatever
  the flag of \<open>t\<close> was.
\<close>

theorem removeDim_order_values_flag:
  assumes "wf_Tuple t"
  shows "tq (removeDim t d) = filter (\<lambda>i. fst i \<noteq> d) (tq t)
     \<and> firstInner (removeDim t d) = True
     \<and> (d \<notin> fst ` set (tq t) \<longrightarrow> tq (removeDim t d) = tq t)"
proof -
  have "tq (removeDim t d) = filter (\<lambda>i. fst i \<noteq> d) (tq t)
      \<and> firstInner (removeDim t d) = True"
    using removeDim_fold[of "tq t" Tuple_new d] assms
    by (simp add: removeDim_def wf_Tuple_def Tuple_new_def)
  moreover have "d \<notin> fst ` set (tq t) \<Longrightarrow> filter (\<lambda>i. fst i \<noteq> d) (tq t) = tq t"
    by (induction "tq t") (auto simp: filter_id_conv)
  ultimately show ?thesis by simp
qed

theorem removeDim_order_values_flag_witness:
  "wf_Tuple \<lparr>tq = [(''x'', 4), (''y'', 3), (''z'', 2)], firstInner = False\<rparr>
   \<and> removeDim \<lparr>tq = [(''x'', 4), (''y'', 3), (''z'', 2)], firstInner = False\<rparr> ''y''
       = \<lparr>tq = [(''x'', 4), (''z'', 2)], firstInner = True\<rparr>
   \<and> ''w'' \<notin> fst ` set [(''x'', 4::int), (''y'', 3), (''z'', 2)]
   \<and> removeDim \<lparr>tq = [(''x'', 4), (''y'', 3), (''z'', 2)], firstInner = False\<rparr> ''w''
       = \<lparr>tq = [(''x'', 4), (''y'', 3), (''z'', 2)], firstInner = True\<rparr>"
proof -
  let ?t = "\<lparr>tq = [(''x'', 4), (''y'', 3), (''z'', 2)], firstInner = False\<rparr>"
  have wf: "wf_Tuple ?t" by (simp add: wf_Tuple_def)
  show ?thesis
    using wf removeDim_order_values_flag [OF wf, of "''y''"]
      removeDim_order_values_flag [OF wf, of "''w''"]
    by simp
qed

subsection \<open>Union of two tuples\<close>

lemma union_fold:
  "distinct (map fst xs) \<Longrightarrow>
   tq (fold (\<lambda>i u. case lookup u (fst i) of
                      None \<Rightarrow> addDimBack u (fst i) (snd i) | Some p \<Rightarrow> u) xs acc)
     = tq acc @ filter (\<lambda>i. lookup acc (fst i) = None) xs
   \<and> firstInner (fold (\<lambda>i u. case lookup u (fst i) of
                      None \<Rightarrow> addDimBack u (fst i) (snd i) | Some p \<Rightarrow> u) xs acc)
     = firstInner acc"
proof (induction xs arbitrary: acc)
  case Nil
  then show ?case by simp
next
  case (Cons x xs)
  show ?case
  proof (cases "lookup acc (fst x)")
    case None
    then have fresh: "fst x \<notin> fst ` set (tq acc)" by (simp add: lookup_None_iff)
    let ?acc = "addDimBack acc (fst x) (snd x)"
    have tq': "tq ?acc = tq acc @ [x]" using fresh by (simp add: tq_addDimBack_fresh)
    have "\<forall>i \<in> set xs. (lookup ?acc (fst i) = None) = (lookup acc (fst i) = None)"
    proof
      fix i assume "i \<in> set xs"
      then have "fst i \<in> fst ` set xs" by (rule imageI)
      moreover have "fst x \<notin> fst ` set xs" using Cons.prems by simp
      ultimately have "fst i \<noteq> fst x" by metis
      then show "(lookup ?acc (fst i) = None) = (lookup acc (fst i) = None)"
        by (simp add: lookup_None_iff tq')
    qed
    then have "filter (\<lambda>i. lookup ?acc (fst i) = None) xs
        = filter (\<lambda>i. lookup acc (fst i) = None) xs"
      by (auto intro: filter_cong)
    then show ?thesis using Cons.IH[of ?acc] Cons.prems None
      by (simp add: tq' firstInner_addDimBack)
  next
    case (Some v)
    then show ?thesis using Cons by simp
  qed
qed

lemma tq_makeUnionWith:
  "wf_Tuple rhs \<Longrightarrow>
   tq (makeUnionWith t rhs) = tq t @ filter (\<lambda>i. lookup t (fst i) = None) (tq rhs)"
  using union_fold[of "tq rhs" t] by (simp add: makeUnionWith_def wf_Tuple_def)

lemma names_makeUnionWith:
  "wf_Tuple rhs \<Longrightarrow>
   fst ` set (tq (makeUnionWith t rhs)) = fst ` set (tq t) \<union> fst ` set (tq rhs)"
  by (auto simp: tq_makeUnionWith lookup_None_iff)

lemma map_of_filter_absent:
  "lookup t d = None \<Longrightarrow>
   map_of (filter (\<lambda>i. lookup t (fst i) = None) xs) d = map_of xs d"
  by (induction xs) auto

lemma lookup_makeUnionWith:
  assumes "wf_Tuple rhs"
  shows "lookup (makeUnionWith t rhs) d
     = (case lookup t d of Some v \<Rightarrow> Some v | None \<Rightarrow> lookup rhs d)"
proof (cases "lookup t d")
  case None
  have "map_of (filter (\<lambda>i. lookup t (fst i) = None) (tq rhs)) d = map_of (tq rhs) d"
    using None by (rule map_of_filter_absent)
  then show ?thesis
    using None assms by (simp add: tq_makeUnionWith lookup_def map_add_def)
next
  case (Some v)
  then show ?thesis using assms by (simp add: tq_makeUnionWith lookup_def map_add_def)
qed

text \<open>
  C8. \<^verbatim>\<open>makeUnionWith\<close> returns a copy of \<^verbatim>\<open>this\<close> (its dimensions first, in
  their order, with its flag) followed by the dimensions of \<open>rhs\<close> that \<^verbatim>\<open>this\<close>
  lacks, with the values of \<open>rhs\<close>; a name in both keeps the value of \<^verbatim>\<open>this\<close>.
  The set of names of the result is the union of the two sets of names, so it is that
  of \<open>t\<close> for \<open>t.makeUnionWith(t)\<close> and the same for \<open>a.makeUnionWith(b)\<close> and
  \<open>b.makeUnionWith(a)\<close>.
\<close>

theorem makeUnionWith_union:
  assumes "wf_Tuple a" and "wf_Tuple b"
  shows "tq (makeUnionWith a b) = tq a @ filter (\<lambda>i. lookup a (fst i) = None) (tq b)
     \<and> firstInner (makeUnionWith a b) = firstInner a
     \<and> wf_Tuple (makeUnionWith a b)
     \<and> (\<forall>d. lookup (makeUnionWith a b) d
              = (case lookup a d of Some v \<Rightarrow> Some v | None \<Rightarrow> lookup b d))
     \<and> fst ` set (tq (makeUnionWith a a)) = fst ` set (tq a)
     \<and> makeUnionWith a a = a
     \<and> fst ` set (tq (makeUnionWith a b)) = fst ` set (tq (makeUnionWith b a))"
proof -
  have 1: "tq (makeUnionWith a b) = tq a @ filter (\<lambda>i. lookup a (fst i) = None) (tq b)"
    using assms(2) by (rule tq_makeUnionWith)
  have 2: "firstInner (makeUnionWith a b) = firstInner a"
    using union_fold[of "tq b" a] assms(2) by (simp add: makeUnionWith_def wf_Tuple_def)
  have 3: "wf_Tuple (makeUnionWith a b)"
    using assms by (force simp: wf_Tuple_def 1 distinct_map_filter lookup_None_iff)
  have 4: "\<forall>d. lookup (makeUnionWith a b) d
              = (case lookup a d of Some v \<Rightarrow> Some v | None \<Rightarrow> lookup b d)"
    using assms(2) by (simp add: lookup_makeUnionWith)
  have 5: "fst ` set (tq (makeUnionWith a a)) = fst ` set (tq a)"
    using assms(1) by (simp add: names_makeUnionWith)
  have "filter (\<lambda>i. lookup a (fst i) = None) (tq a) = []"
    by (auto simp: filter_empty_conv lookup_None_iff)
  then have "tq (makeUnionWith a a) = tq a"
    using assms(1) by (simp add: tq_makeUnionWith)
  moreover have "firstInner (makeUnionWith a a) = firstInner a"
    using union_fold[of "tq a" a] assms(1) by (simp add: makeUnionWith_def wf_Tuple_def)
  ultimately have 6: "makeUnionWith a a = a" by simp
  have 7: "fst ` set (tq (makeUnionWith a b)) = fst ` set (tq (makeUnionWith b a))"
    using assms by (simp add: names_makeUnionWith Un_commute)
  show ?thesis using 1 2 3 4 5 6 7 by blast
qed

theorem makeUnionWith_union_witness:
  "wf_Tuple \<lparr>tq = [(''x'', 1), (''y'', 2)], firstInner = False\<rparr>
   \<and> wf_Tuple \<lparr>tq = [(''y'', 5), (''z'', 7)], firstInner = True\<rparr>
   \<and> makeUnionWith \<lparr>tq = [(''x'', 1), (''y'', 2)], firstInner = False\<rparr>
                    \<lparr>tq = [(''y'', 5), (''z'', 7)], firstInner = True\<rparr>
       = \<lparr>tq = [(''x'', 1), (''y'', 2), (''z'', 7)], firstInner = False\<rparr>"
proof -
  let ?a = "\<lparr>tq = [(''x'', 1), (''y'', 2)], firstInner = False\<rparr>"
  let ?b = "\<lparr>tq = [(''y'', 5), (''z'', 7)], firstInner = True\<rparr>"
  have wa: "wf_Tuple ?a" and wb: "wf_Tuple ?b" by (simp_all add: wf_Tuple_def)
  show ?thesis
    using wa wb makeUnionWith_union [OF wa wb] by (simp add: lookup_def)
qed

subsection \<open>Scalar-broadcast elementwise operations\<close>

lemma fold_keeps: "fold (\<lambda>i newt. newt) xs t = t"
  by (induction xs) simp_all

lemma mapElements_copy: "mapElements t func rhs = t"
  by (simp add: mapElements_def Let_def fold_keeps)

text \<open>
  C3. The claim: \<^verbatim>\<open>addElements(c)\<close>, \<^verbatim>\<open>multElements(c)\<close>, \<^verbatim>\<open>maxElements(c)\<close> and
  \<^verbatim>\<open>minElements(c)\<close> return the tuple whose value in each dimension is the function
  applied to the value of \<open>t\<close> and \<open>c\<close>. The code returns for \<open>{x: 1, y: 2}\<close> and
  \<open>c = 5\<close> the tuple \<open>{x: 1, y: 2}\<close> from all four, where the claim gives
  \<open>{x: 6, y: 7}\<close>, \<open>{x: 5, y: 10}\<close>, \<open>{x: 5, y: 5}\<close> and \<open>{x: 1, y: 2}\<close>.
\<close>

theorem scalar_elementwise_returns_copy:
  "addElements \<lparr>tq = [(''x'', 1), (''y'', 2)], firstInner = True\<rparr> 5
     = \<lparr>tq = [(''x'', 1), (''y'', 2)], firstInner = True\<rparr>
   \<and> multElements \<lparr>tq = [(''x'', 1), (''y'', 2)], firstInner = True\<rparr> 5
     = \<lparr>tq = [(''x'', 1), (''y'', 2)], firstInner = True\<rparr>
   \<and> maxElements \<lparr>tq = [(''x'', 1), (''y'', 2)], firstInner = True\<rparr> 5
     = \<lparr>tq = [(''x'', 1), (''y'', 2)], firstInner = True\<rparr>
   \<and> minElements \<lparr>tq = [(''x'', 1), (''y'', 2)], firstInner = True\<rparr> 5
     = \<lparr>tq = [(''x'', 1), (''y'', 2)], firstInner = True\<rparr>"
  by (simp add: addElements_def multElements_def maxElements_def minElements_def
      mapElements_def)

subsection \<open>Alignment of two vectors\<close>

lemma align_lo_inv:
  "0 \<le> count \<Longrightarrow> 0 \<le> i \<Longrightarrow> int (length res) = VLEN \<Longrightarrow> int (length tmpb) = VLEN \<Longrightarrow>
   \<exists>r. align_lo VLEN count i res tmpb = Inr r \<and> length r = length res \<and>
     (\<forall>j. j < length res \<longrightarrow>
        r ! j = (if i \<le> int j \<and> int j < VLEN - count then tmpb ! (j + nat count) else res ! j))"
proof (induction VLEN count i res tmpb rule: align_lo.induct)
  case (1 VLEN count i res tmpb)
  show ?case
  proof (cases "i < VLEN - count")
    case False
    then show ?thesis by (subst align_lo.simps) auto
  next
    case True
    let ?v = "tmpb ! nat (i + count)"
    let ?res' = "res[nat i := ?v]"
    have rdv: "rd tmpb (i + count) = Inr ?v" using True 1 by (simp add: rd_def)
    have wrv: "wr res i ?v = Inr ?res'" using True 1 by (simp add: wr_def)
    from "1.IH"[OF True rdv wrv] 1 True
    obtain r where r: "align_lo VLEN count (i + 1) ?res' tmpb = Inr r" "length r = length ?res'"
      "\<forall>j. j < length ?res' \<longrightarrow>
        r ! j = (if i + 1 \<le> int j \<and> int j < VLEN - count
                 then tmpb ! (j + nat count) else ?res' ! j)"
      by auto
    have "align_lo VLEN count i res tmpb = Inr r"
      by (subst align_lo.simps) (simp add: True rdv wrv r(1))
    moreover have "length r = length res" using r(2) by simp
    moreover have "\<forall>j. j < length res \<longrightarrow>
        r ! j = (if i \<le> int j \<and> int j < VLEN - count then tmpb ! (j + nat count) else res ! j)"
    proof (intro allI impI)
      fix j assume j: "j < length res"
      show "r ! j = (if i \<le> int j \<and> int j < VLEN - count
                     then tmpb ! (j + nat count) else res ! j)"
      proof (cases "int j = i")
        case True
        then have "nat i = j" by simp
        moreover have "nat (i + count) = j + nat count"
          using True 1 by (simp add: nat_add_distrib)
        ultimately show ?thesis using r(3) j True \<open>i < VLEN - count\<close> by auto
      next
        case False
        then have "nat i \<noteq> j" using 1 by auto
        then show ?thesis using r(3) j False by auto
      qed
    qed
    ultimately show ?thesis by blast
  qed
qed

lemma align_hi_inv:
  "0 \<le> count \<Longrightarrow> count \<le> VLEN \<Longrightarrow> VLEN - count \<le> i \<Longrightarrow>
   int (length res) = VLEN \<Longrightarrow> int (length tmpa) = VLEN \<Longrightarrow>
   \<exists>r. align_hi VLEN count i res tmpa = Inr r \<and> length r = length res \<and>
     (\<forall>j. j < length res \<longrightarrow>
        r ! j = (if i \<le> int j then tmpa ! (j + nat count - nat VLEN) else res ! j))"
proof (induction VLEN count i res tmpa rule: align_hi.induct)
  case (1 VLEN count i res tmpa)
  show ?case
  proof (cases "i < VLEN")
    case False
    then show ?thesis using 1 by (subst align_hi.simps) auto
  next
    case True
    let ?v = "tmpa ! nat (i + count - VLEN)"
    let ?res' = "res[nat i := ?v]"
    have rdv: "rd tmpa (i + count - VLEN) = Inr ?v" using True 1 by (simp add: rd_def)
    have wrv: "wr res i ?v = Inr ?res'" using True 1 by (simp add: wr_def)
    from "1.IH"[OF True rdv wrv] 1 True
    obtain r where r: "align_hi VLEN count (i + 1) ?res' tmpa = Inr r" "length r = length ?res'"
      "\<forall>j. j < length ?res' \<longrightarrow>
        r ! j = (if i + 1 \<le> int j then tmpa ! (j + nat count - nat VLEN) else ?res' ! j)"
      by auto
    have "align_hi VLEN count i res tmpa = Inr r"
      by (subst align_hi.simps) (simp add: True rdv wrv r(1))
    moreover have "length r = length res" using r(2) by simp
    moreover have "\<forall>j. j < length res \<longrightarrow>
        r ! j = (if i \<le> int j then tmpa ! (j + nat count - nat VLEN) else res ! j)"
    proof (intro allI impI)
      fix j assume j: "j < length res"
      show "r ! j = (if i \<le> int j then tmpa ! (j + nat count - nat VLEN) else res ! j)"
      proof (cases "int j = i")
        case True
        then have "nat i = j" by simp
        moreover have "nat (i + count - VLEN) = j + nat count - nat VLEN"
          using True 1 by linarith
        ultimately show ?thesis using r(3) j True by auto
      next
        case False
        then have "nat i \<noteq> j" using 1 by auto
        then show ?thesis using r(3) j False by auto
      qed
    qed
    ultimately show ?thesis by blast
  qed
qed

lemma align_result_nth:
  assumes "0 \<le> count" "count \<le> VLEN" "int (length a) = VLEN" "int (length b) = VLEN"
    "int (length res) = VLEN"
  shows "\<exists>r. real_vec_align VLEN count res a b = Inr r \<and> length r = nat VLEN \<and>
     (\<forall>j. j < nat VLEN \<longrightarrow>
        r ! j = (if int j < VLEN - count then b ! (j + nat count)
                 else a ! (j + nat count - nat VLEN)))"
proof -
  from align_lo_inv[of count 0 res VLEN b] assms
  obtain r1 where r1: "align_lo VLEN count 0 res b = Inr r1" "length r1 = length res"
     "\<forall>j. j < length res \<longrightarrow>
        r1 ! j = (if 0 \<le> int j \<and> int j < VLEN - count then b ! (j + nat count) else res ! j)"
    by auto
  from align_hi_inv[of count VLEN "VLEN - count" r1 a] assms r1(2)
  obtain r where r: "align_hi VLEN count (VLEN - count) r1 a = Inr r" "length r = length r1"
     "\<forall>j. j < length r1 \<longrightarrow>
        r ! j = (if VLEN - count \<le> int j then a ! (j + nat count - nat VLEN) else r1 ! j)"
    by auto
  have "real_vec_align VLEN count res a b = Inr r"
    using r1(1) r(1) by (simp add: real_vec_align_def)
  moreover have "length r = nat VLEN" using r(2) r1(2) assms by auto
  moreover have "\<forall>j. j < nat VLEN \<longrightarrow>
        r ! j = (if int j < VLEN - count then b ! (j + nat count)
                 else a ! (j + nat count - nat VLEN))"
  proof (intro allI impI)
    fix j assume "j < nat VLEN"
    then have j: "j < length res" using assms by auto
    show "r ! j = (if int j < VLEN - count then b ! (j + nat count)
                 else a ! (j + nat count - nat VLEN))"
      using r(3) r1(2) r1(3) j by auto
  qed
  ultimately show ?thesis by blast
qed

lemma concat_shift_nth:
  assumes "0 \<le> count" "count \<le> VLEN" "int (length a) = VLEN" "int (length b) = VLEN"
    "j < nat VLEN"
  shows "take (nat VLEN) (drop (nat count) (b @ a)) ! j
     = (if int j < VLEN - count then b ! (j + nat count) else a ! (j + nat count - nat VLEN))"
proof -
  have la: "length a = nat VLEN" and lb: "length b = nat VLEN" using assms by simp_all
  have cn: "nat count \<le> nat VLEN" using assms by simp
  have "take (nat VLEN) (drop (nat count) (b @ a)) ! j = drop (nat count) (b @ a) ! j"
    using assms(5) by (rule nth_take)
  also have "\<dots> = (b @ a) ! (nat count + j)"
    using cn by (intro nth_drop) (simp add: la lb)
  finally have rhs: "take (nat VLEN) (drop (nat count) (b @ a)) ! j = (b @ a) ! (nat count + j)" .
  show ?thesis
  proof (cases "int j < VLEN - count")
    case False
    then have "\<not> nat count + j < length b"
      "nat count + j - length b = j + nat count - nat VLEN"
      using assms lb by linarith+
    then have "(b @ a) ! (nat count + j) = a ! (j + nat count - nat VLEN)"
      by (simp add: nth_append)
    then show ?thesis using rhs False by simp
  next
    case True
    then have "nat count + j < length b" using assms lb by linarith
    then have "(b @ a) ! (nat count + j) = b ! (j + nat count)"
      by (simp add: nth_append add.commute)
    then show ?thesis using rhs True by simp
  qed
qed

text \<open>
  C6. For lanes \<open>a\<close> and \<open>b\<close> of any values and \<open>0 \<le> count \<le> VLEN\<close>,
  \<^verbatim>\<open>real_vec_align\<close> returns the concatenation of \<open>a\<close> after \<open>b\<close>, shifted right
  by \<open>count\<close> lanes and cut to its \<open>VLEN\<close> rightmost lanes (lane 0 is the rightmost):
  lane \<open>i\<close> is \<open>b[i + count]\<close> for \<open>i < VLEN - count\<close> and \<open>a[i + count - VLEN]\<close>
  otherwise. With \<open>count = 0\<close> the result is \<open>b\<close>, with \<open>count = VLEN\<close> it is \<open>a\<close>.
  The previous contents of \<open>res\<close> do not matter.
\<close>

theorem real_vec_align_lanes:
  assumes "0 \<le> count" and "count \<le> VLEN"
    and "int (length a) = VLEN" and "int (length b) = VLEN" and "int (length res) = VLEN"
  shows "\<exists>r. real_vec_align VLEN count res a b = Inr r
     \<and> r = take (nat VLEN) (drop (nat count) (b @ a))
     \<and> length r = nat VLEN
     \<and> (\<forall>i. i < nat VLEN \<longrightarrow>
          r ! i = (if int i < VLEN - count then b ! (i + nat count)
                   else a ! (i + nat count - nat VLEN)))
     \<and> (count = 0 \<longrightarrow> r = b)
     \<and> (count = VLEN \<longrightarrow> r = a)"
proof -
  from align_result_nth[OF assms]
  obtain r where r: "real_vec_align VLEN count res a b = Inr r" "length r = nat VLEN"
    "\<forall>j. j < nat VLEN \<longrightarrow>
        r ! j = (if int j < VLEN - count then b ! (j + nat count)
                 else a ! (j + nat count - nat VLEN))"
    by blast
  have la: "length a = nat VLEN" and lb: "length b = nat VLEN" using assms by simp_all
  have eq: "r = take (nat VLEN) (drop (nat count) (b @ a))"
  proof (rule nth_equalityI)
    show "length r = length (take (nat VLEN) (drop (nat count) (b @ a)))"
      using r(2) la lb assms(1,2) by simp
  next
    fix j assume "j < length r"
    then have j: "j < nat VLEN" using r(2) by simp
    show "r ! j = take (nat VLEN) (drop (nat count) (b @ a)) ! j"
      using r(3) j concat_shift_nth[OF assms(1-4) j] by simp
  qed
  have "count = 0 \<Longrightarrow> r = b" using eq lb by simp
  moreover have "count = VLEN \<Longrightarrow> r = a" using eq la lb by simp
  ultimately show ?thesis using r eq by blast
qed

theorem real_vec_align_lanes_witness:
  "real_vec_align 4 1 [9, 9, 9, 9] [10, 11, 12, 13] [0, 1, 2, 3::int] = Inr [1, 2, 3, 10]
   \<and> real_vec_align 4 0 [9, 9, 9, 9] [10, 11, 12, 13] [0, 1, 2, 3::int] = Inr [0, 1, 2, 3]
   \<and> real_vec_align 4 4 [9, 9, 9, 9] [10, 11, 12, 13] [0, 1, 2, 3::int] = Inr [10, 11, 12, 13]"
  using real_vec_align_lanes [of 1 4 "[10, 11, 12, 13::int]" "[0, 1, 2, 3]" "[9, 9, 9, 9]"]
    real_vec_align_lanes [of 0 4 "[10, 11, 12, 13::int]" "[0, 1, 2, 3]" "[9, 9, 9, 9]"]
    real_vec_align_lanes [of 4 4 "[10, 11, 12, 13::int]" "[0, 1, 2, 3]" "[9, 9, 9, 9]"]
  by auto

subsection \<open>Floating-point arithmetic\<close>

text \<open>\<^verbatim>\<open>bits n\<close> is the length of \<open>n\<close> in binary.\<close>

lemma bits_upper: "n < 2 ^ bits n"
proof (induction n rule: bits.induct)
  case (1 n)
  show ?case
  proof (cases "n = 0")
    case True
    then show ?thesis by (simp add: bits.simps)
  next
    case False
    have "n div 2 < 2 ^ bits (n div 2)" using 1 False by simp
    then have "n < 2 * 2 ^ bits (n div 2)" by linarith
    then show ?thesis using False by (subst bits.simps) simp
  qed
qed

lemma bits_lower: "0 < n \<Longrightarrow> 2 ^ (bits n - 1) \<le> n"
proof (induction n rule: bits.induct)
  case (1 n)
  show ?case
  proof (cases "n div 2 = 0")
    case True
    then have "bits n = 1" using 1(2) by (subst bits.simps, subst bits.simps) simp
    then show ?thesis using 1(2) by simp
  next
    case False
    have "2 ^ (bits (n div 2) - 1) \<le> n div 2" using 1 False by simp
    moreover have "0 < bits (n div 2)" using False by (subst bits.simps) simp
    moreover have "bits n = Suc (bits (n div 2))" using 1(2) by (subst bits.simps) simp
    ultimately have "2 ^ (bits n - 1) \<le> 2 * (n div 2)"
      by (cases "bits (n div 2)") simp_all
    then show ?thesis by linarith
  qed
qed

text \<open>The comparison of two finite values is that of the numbers they stand for.\<close>

lemma powi_split: "E \<le> d \<Longrightarrow> (2::real) powi d = 2 ^ nat (d - E) * 2 powi E"
proof -
  assume "E \<le> d"
  then have n: "(2::real) powi (d - E) = 2 ^ nat (d - E)" by (simp add: power_int_def)
  have "(2::real) powi d = 2 powi ((d - E) + E)" by simp
  also have "\<dots> = 2 powi (d - E) * 2 powi E"
    by (rule power_int_add) simp
  finally show ?thesis using n by simp
qed

lemma less_t_valof:
  "less_t (Finite s m e) (Finite s' m' e') = (valof (Finite s m e) < valof (Finite s' m' e'))"
proof -
  define E where "E = min e e'"
  have a: "(of_int (a * 2 ^ nat (d - E)) :: real) * 2 powi E = of_int a * 2 powi d"
    if "E \<le> d" for a :: int and d
    using powi_split[OF that] by simp
  have "less_t (Finite s m e) (Finite s' m' e')
      = ((of_int (with_sign s m * 2 ^ nat (e - E)) :: real) < of_int (with_sign s' m' * 2 ^ nat (e' - E)))"
    unfolding less_t.simps E_def of_int_less_iff ..
  also have "\<dots> = ((of_int (with_sign s m * 2 ^ nat (e - E)) :: real) * 2 powi E
                     < of_int (with_sign s' m' * 2 ^ nat (e' - E)) * 2 powi E)"
  proof -
    have "(0::real) < 2 powi E" by (simp add: zero_less_power_int)
    then show ?thesis by (simp only: mult_less_cancel_right_pos)
  qed
  also have "\<dots> = (valof (Finite s m e) < valof (Finite s' m' e'))"
  proof -
    have x: "(of_int (with_sign s m * 2 ^ nat (e - E)) :: real) * 2 powi E = valof (Finite s m e)"
      unfolding valof.simps by (rule a) (simp add: E_def)
    have y: "(of_int (with_sign s' m' * 2 ^ nat (e' - E)) :: real) * 2 powi E = valof (Finite s' m' e')"
      unfolding valof.simps by (rule a) (simp add: E_def)
    show ?thesis by (simp only: x y)
  qed
  finally show ?thesis .
qed

text \<open>
  \<^verbatim>\<open>round_shift M k\<close> is an integer nearest to \<open>M / 2^k\<close>, the even one of the two
  when \<open>M / 2^k\<close> is half-way between them.
\<close>

lemma round_shift_nearest: "2 * \<bar>int (round_shift M k) * 2 ^ k - int M\<bar> \<le> 2 ^ k"
proof -
  define q where "q = M div 2 ^ k"
  define r where "r = M mod 2 ^ k"
  have M: "M = q * 2 ^ k + r" unfolding q_def r_def by (rule div_mult_mod_eq[symmetric])
  have r: "r < 2 ^ k" by (simp add: r_def)
  show ?thesis
  proof (cases "2 ^ k < 2 * r \<or> (2 * r = 2 ^ k \<and> odd q)")
    case True
    then have "round_shift M k = q + 1" by (simp add: round_shift_def Let_def q_def r_def)
    then have "int (round_shift M k) * 2 ^ k - int M = 2 ^ k - int r"
      by (simp add: M algebra_simps)
    moreover have "2 ^ k \<le> 2 * int r" using True by (metis less_imp_le of_nat_le_iff of_nat_mult of_nat_numeral of_nat_power order_refl)
    ultimately show ?thesis using r by simp
  next
    case False
    then have "round_shift M k = q" by (simp add: round_shift_def Let_def q_def r_def)
    then have "int (round_shift M k) * 2 ^ k - int M = - int r"
      by (simp add: M algebra_simps)
    moreover have "2 * int r \<le> 2 ^ k" using False
      by (metis not_less of_nat_le_iff of_nat_mult of_nat_numeral of_nat_power)
    ultimately show ?thesis by simp
  qed
qed

lemma round_shift_ties_even:
  "2 * \<bar>int (round_shift M k) * 2 ^ k - int M\<bar> = 2 ^ k \<Longrightarrow> 0 < k \<Longrightarrow> even (round_shift M k)"
proof -
  assume tie: "2 * \<bar>int (round_shift M k) * 2 ^ k - int M\<bar> = 2 ^ k" and k: "0 < k"
  define q where "q = M div 2 ^ k"
  define r where "r = M mod 2 ^ k"
  have M: "M = q * 2 ^ k + r" unfolding q_def r_def by (rule div_mult_mod_eq[symmetric])
  have r: "r < 2 ^ k" by (simp add: r_def)
  show ?thesis
  proof (cases "2 ^ k < 2 * r \<or> (2 * r = 2 ^ k \<and> odd q)")
    case True
    then have rs: "round_shift M k = q + 1" by (simp add: round_shift_def Let_def q_def r_def)
    then have "int (round_shift M k) * 2 ^ k - int M = 2 ^ k - int r"
      by (simp add: M algebra_simps)
    then have "2 * int r = 2 ^ k" using tie r by simp
    then have "2 * r = 2 ^ k" by (metis of_nat_eq_iff of_nat_mult of_nat_numeral of_nat_power)
    then show ?thesis using True rs by simp
  next
    case False
    then have rs: "round_shift M k = q" by (simp add: round_shift_def Let_def q_def r_def)
    then have "int (round_shift M k) * 2 ^ k - int M = - int r"
      by (simp add: M algebra_simps)
    then have "2 * int r = 2 ^ k" using tie by simp
    then have "2 * r = 2 ^ k" by (metis of_nat_eq_iff of_nat_mult of_nat_numeral of_nat_power)
    then show ?thesis using False rs by simp
  qed
qed

text \<open>
  \<^verbatim>\<open>round_t\<close> gives a value of the format, within half a unit of its last bit of the
  number that is rounded, and with all the bits of the precision unless it is subnormal.
  So do the subtraction and the multiplication, for the exact difference and the exact
  product.
\<close>

lemma round_t_valid:
  assumes p: "0 < prec f" and em: "1 \<le> emax f"
  shows "is_real_t f (round_t f s M E)"
proof (cases "M = 0")
  case True
  then show ?thesis using em by (simp add: round_t_def etiny_def etop_def)
next
  case False
  define e where "e = max (E + int (bits M) - int (prec f)) (etiny f)"
  define m where "m = (if e \<le> E then M * 2 ^ nat (E - e) else round_shift M (nat (e - E)))"
  have m: "m \<le> 2 ^ prec f"
  proof (cases "e \<le> E")
    case True
    have "E + int (bits M) - int (prec f) \<le> e" by (simp add: e_def)
    then have le: "bits M + nat (E - e) \<le> prec f" using True by linarith
    have "M * 2 ^ nat (E - e) < 2 ^ bits M * 2 ^ nat (E - e)" using bits_upper[of M] by simp
    also have "\<dots> = 2 ^ (bits M + nat (E - e))" by (simp add: power_add)
    also have "\<dots> \<le> 2 ^ prec f" using le by (simp add: power_increasing)
    finally show ?thesis using True by (simp add: m_def)
  next
    case False
    define k where "k = nat (e - E)"
    have "E + int (bits M) - int (prec f) \<le> e" by (simp add: e_def)
    then have le: "bits M \<le> k + prec f" using False by (simp add: k_def)
    have "M < 2 ^ bits M" by (rule bits_upper)
    also have "\<dots> \<le> 2 ^ (k + prec f)" using le by (simp add: power_increasing)
    finally have "M < 2 ^ prec f * 2 ^ k" by (simp add: power_add mult.commute)
    then have "M div 2 ^ k < 2 ^ prec f" by (simp add: less_mult_imp_div_less)
    then have "round_shift M k \<le> 2 ^ prec f" by (simp add: round_shift_def Let_def)
    then show ?thesis using False by (simp add: m_def k_def)
  qed
  have lo: "etiny f \<le> e" by (simp add: e_def)
  have "round_t f s M E =
     (let e' = (if m = 2 ^ prec f then e + 1 else e);
          m' = (if m = 2 ^ prec f then 2 ^ (prec f - 1) else m)
      in if etop f < e' then Infinity s else Finite s m' e')"
    using False by (simp add: round_t_def Let_def e_def m_def)
  then show ?thesis using m lo p by (auto simp: Let_def)
qed

lemma fsub_valid:
  "0 < prec f \<Longrightarrow> 1 \<le> emax f \<Longrightarrow> is_real_t f (fsub f x y)"
  by (cases x; cases y) (simp_all add: Let_def round_t_valid, simp add: etiny_def etop_def)

lemma fmul_valid:
  "0 < prec f \<Longrightarrow> 1 \<le> emax f \<Longrightarrow> is_real_t f (fmul f x y)"
  by (cases x; cases y) (simp_all add: round_t_valid)

lemma round_t_unfold:
  assumes "M \<noteq> 0"
  shows "\<exists>e0 m0. etiny f \<le> e0 \<and> E + int (bits M) - int (prec f) \<le> e0
     \<and> (e0 = etiny f \<or> e0 = E + int (bits M) - int (prec f))
     \<and> m0 = (if e0 \<le> E then M * 2 ^ nat (E - e0) else round_shift M (nat (e0 - E)))
     \<and> round_t f s M E =
         (if etop f < (if m0 = 2 ^ prec f then e0 + 1 else e0) then Infinity s
          else Finite s (if m0 = 2 ^ prec f then 2 ^ (prec f - 1) else m0)
                 (if m0 = 2 ^ prec f then e0 + 1 else e0))"
proof -
  define e0 where "e0 = max (E + int (bits M) - int (prec f)) (etiny f)"
  define m0 where "m0 = (if e0 \<le> E then M * 2 ^ nat (E - e0) else round_shift M (nat (e0 - E)))"
  have 1: "etiny f \<le> e0" and 2: "E + int (bits M) - int (prec f) \<le> e0"
    by (simp_all add: e0_def)
  have 3: "e0 = etiny f \<or> e0 = E + int (bits M) - int (prec f)"
    by (simp add: e0_def max_def)
  have 4: "round_t f s M E =
         (if etop f < (if m0 = 2 ^ prec f then e0 + 1 else e0) then Infinity s
          else Finite s (if m0 = 2 ^ prec f then 2 ^ (prec f - 1) else m0)
                 (if m0 = 2 ^ prec f then e0 + 1 else e0))"
    using assms by (simp add: round_t_def Let_def e0_def m0_def)
  show ?thesis
    by (intro exI[of _ e0] exI[of _ m0] conjI 1 2 3 4) (rule m0_def)
qed

lemma round_t_nearest:
  assumes r: "round_t f s M E = Finite s' m e" and p: "0 < prec f"
  shows "s' = s \<and> \<bar>valof (Finite s m e) - of_int (with_sign s M) * 2 powi E\<bar> \<le> 2 powi e / 2"
proof (cases "M = 0")
  case True
  then show ?thesis using r by (auto simp: round_t_def with_sign_def)
next
  case False
  from round_t_unfold[OF False, of f E s] obtain e0 m0 where
    m0: "m0 = (if e0 \<le> E then M * 2 ^ nat (E - e0) else round_shift M (nat (e0 - E)))"
    and rt: "round_t f s M E =
         (if etop f < (if m0 = 2 ^ prec f then e0 + 1 else e0) then Infinity s
          else Finite s (if m0 = 2 ^ prec f then 2 ^ (prec f - 1) else m0)
                 (if m0 = 2 ^ prec f then e0 + 1 else e0))"
    by blast
  have s: "s' = s" and m: "m = (if m0 = 2 ^ prec f then 2 ^ (prec f - 1) else m0)"
    and e: "e = (if m0 = 2 ^ prec f then e0 + 1 else e0)"
    using r rt by (auto split: if_splits)
  have same: "real m * 2 powi e = real m0 * 2 powi e0"
  proof (cases "m0 = 2 ^ prec f")
    case True
    have "(2::real) powi (e0 + 1) = 2 powi e0 * 2" by (subst power_int_add) simp_all
    moreover have "(2::real) ^ prec f = 2 ^ (prec f - 1) * 2" using p by (cases "prec f") simp_all
    ultimately show ?thesis using True m e by simp
  next
    case False
    then show ?thesis using m e by simp
  qed
  have e0e: "(2::real) powi e0 \<le> 2 powi e"
  proof -
    have "e0 \<le> e" using e by simp
    then show ?thesis by (rule power_int_increasing) simp
  qed
  have err: "\<bar>real m0 * 2 powi e0 - real M * 2 powi E\<bar> \<le> 2 powi e0 / 2"
  proof (cases "e0 \<le> E")
    case True
    have "(2::real) powi E = 2 ^ nat (E - e0) * 2 powi e0" using True by (rule powi_split)
    then show ?thesis using True m0 by simp
  next
    case False
    define k where "k = nat (e0 - E)"
    have pw: "(2::real) powi e0 = 2 ^ k * 2 powi E" unfolding k_def using False by (intro powi_split) simp
    have "real m0 * 2 powi e0 - real M * 2 powi E = (real m0 * 2 ^ k - real M) * 2 powi E"
      by (simp add: pw algebra_simps)
    also have "\<dots> = of_int (int m0 * 2 ^ k - int M) * 2 powi E" by simp
    finally have "\<bar>real m0 * 2 powi e0 - real M * 2 powi E\<bar>
        = of_int \<bar>int m0 * 2 ^ k - int M\<bar> * 2 powi E"
      by (simp add: abs_mult)
    moreover have "2 * \<bar>int m0 * 2 ^ k - int M\<bar> \<le> 2 ^ k"
      using round_shift_nearest[of M k] False m0 by (simp add: k_def)
    then have "(of_int (2 * \<bar>int m0 * 2 ^ k - int M\<bar>) :: real) \<le> of_int (2 ^ k)"
      by (simp only: of_int_le_iff)
    then have "2 * (of_int \<bar>int m0 * 2 ^ k - int M\<bar> :: real) \<le> 2 ^ k" by simp
    then have "2 * (of_int \<bar>int m0 * 2 ^ k - int M\<bar> :: real) * 2 powi E \<le> 2 ^ k * 2 powi E"
      by (intro mult_right_mono) simp_all
    ultimately show ?thesis by (simp add: pw)
  qed
  have "\<bar>valof (Finite s m e) - of_int (with_sign s M) * 2 powi E\<bar>
      = \<bar>real m * 2 powi e - real M * 2 powi E\<bar>"
    by (cases s) (simp_all add: with_sign_def abs_minus_commute)
  then have "\<bar>valof (Finite s m e) - of_int (with_sign s M) * 2 powi E\<bar>
      = \<bar>real m0 * 2 powi e0 - real M * 2 powi E\<bar>"
    by (simp only: same)
  then show ?thesis using err e0e s by simp
qed

lemma round_t_normal:
  assumes r: "round_t f s M E = Finite s' m e" and p: "0 < prec f" and M: "M \<noteq> 0"
  shows "2 ^ (prec f - 1) \<le> m \<or> e = etiny f"
proof -
  from round_t_unfold[OF M, of f E s] obtain e0 m0 where
    e0: "e0 = etiny f \<or> e0 = E + int (bits M) - int (prec f)"
    and m0: "m0 = (if e0 \<le> E then M * 2 ^ nat (E - e0) else round_shift M (nat (e0 - E)))"
    and rt: "round_t f s M E =
         (if etop f < (if m0 = 2 ^ prec f then e0 + 1 else e0) then Infinity s
          else Finite s (if m0 = 2 ^ prec f then 2 ^ (prec f - 1) else m0)
                 (if m0 = 2 ^ prec f then e0 + 1 else e0))"
    by blast
  have m: "m = (if m0 = 2 ^ prec f then 2 ^ (prec f - 1) else m0)"
    and e: "e = (if m0 = 2 ^ prec f then e0 + 1 else e0)"
    using r rt by (auto split: if_splits)
  show ?thesis
  proof (cases "m0 = 2 ^ prec f")
    case True
    then show ?thesis using m by simp
  next
    case ne: False
    show ?thesis
    proof (cases "e0 = etiny f")
      case True
      then show ?thesis using e ne by simp
    next
      case False
      then have e0': "e0 = E + int (bits M) - int (prec f)" using e0 by simp
      have low: "2 ^ (bits M - 1) \<le> M" using bits_lower M by simp
      have bpos: "0 < bits M" using M by (subst bits.simps) simp
      have "2 ^ (prec f - 1) \<le> m0"
      proof (cases "e0 \<le> E")
        case True
        then have le: "bits M \<le> prec f" and k: "nat (E - e0) = prec f - bits M" using e0' by simp_all
        have "prec f - 1 = (bits M - 1) + (prec f - bits M)" using le bpos by simp
        then have "(2::nat) ^ (prec f - 1) = 2 ^ (bits M - 1) * 2 ^ (prec f - bits M)"
          by (simp only: power_add)
        also have "\<dots> \<le> M * 2 ^ (prec f - bits M)" using low by simp
        finally show ?thesis using True m0 k by simp
      next
        case False
        then have gt: "prec f < bits M" and k: "nat (e0 - E) = bits M - prec f" using e0' by simp_all
        have "bits M - 1 = (prec f - 1) + (bits M - prec f)" using gt p by simp
        then have "(2::nat) ^ (bits M - 1) = 2 ^ (prec f - 1) * 2 ^ (bits M - prec f)"
          by (simp only: power_add)
        then have "2 ^ (prec f - 1) * 2 ^ (bits M - prec f) \<le> M" using low by simp
        then have "2 ^ (prec f - 1) \<le> M div 2 ^ (bits M - prec f)"
          by (simp add: less_eq_div_iff_mult_less_eq)
        also have "\<dots> \<le> round_shift M (bits M - prec f)" by (simp add: round_shift_def Let_def)
        finally show ?thesis using False m0 k by simp
      qed
      then show ?thesis using m ne by simp
    qed
  qed
qed

lemma with_sign_abs: "with_sign (I < 0) (nat \<bar>I\<bar>) = I"
  by (simp add: with_sign_def)

lemma with_sign_mult: "with_sign (s \<noteq> s') (m * m') = with_sign s m * with_sign s' m'"
  by (cases s; cases s') (simp_all add: with_sign_def)

lemma fmul_nearest:
  assumes r: "fmul f (Finite s m e) (Finite s' m' e') = Finite t n d" and p: "0 < prec f"
  shows "\<bar>valof (Finite t n d) - valof (Finite s m e) * valof (Finite s' m' e')\<bar> \<le> 2 powi d / 2"
proof -
  have "(2::real) powi (e + e') = 2 powi e * 2 powi e'" by (rule power_int_add) simp
  moreover have "(of_int (with_sign (s \<noteq> s') (m * m')) :: real) = of_int (with_sign s m) * of_int (with_sign s' m')"
    by (simp only: with_sign_mult of_int_mult)
  ultimately have "valof (Finite s m e) * valof (Finite s' m' e')
      = of_int (with_sign (s \<noteq> s') (m * m')) * 2 powi (e + e')"
    by (simp only: valof.simps) (simp add: algebra_simps)
  then show ?thesis using round_t_nearest[of f "s \<noteq> s'" "m * m'" "e + e'" t n d] r p by simp
qed

lemma fsub_nearest:
  assumes r: "fsub f (Finite s m e) (Finite s' m' e') = Finite t n d" and p: "0 < prec f"
  shows "\<bar>valof (Finite t n d) - (valof (Finite s m e) - valof (Finite s' m' e'))\<bar> \<le> 2 powi d / 2"
proof -
  define E where "E = min e e'"
  define I where "I = with_sign s m * 2 ^ nat (e - E) - with_sign s' m' * 2 ^ nat (e' - E)"
  have "(2::real) powi e = 2 ^ nat (e - E) * 2 powi E" "(2::real) powi e' = 2 ^ nat (e' - E) * 2 powi E"
    by (rule powi_split, simp add: E_def)+
  then have ex: "valof (Finite s m e) - valof (Finite s' m' e') = of_int I * 2 powi E"
    by (simp add: I_def algebra_simps)
  show ?thesis
  proof (cases "I = 0")
    case True
    then have "fsub f (Finite s m e) (Finite s' m' e') = Finite (s \<and> \<not> s') 0 (etiny f)"
      by (simp add: I_def E_def Let_def)
    then show ?thesis using r ex True by (auto simp: with_sign_def)
  next
    case False
    then have "fsub f (Finite s m e) (Finite s' m' e') = round_t f (I < 0) (nat \<bar>I\<bar>) E"
      by (simp add: I_def E_def Let_def)
    then show ?thesis
      using round_t_nearest[of f "I < 0" "nat \<bar>I\<bar>" E t n d] r p ex by (simp add: with_sign_abs)
  qed
qed

subsection \<open>Comparison within a tolerance\<close>

lemma fabs_round_t: "fabs (round_t f s M E) = round_t f False M E"
  by (simp add: round_t_def Let_def)

lemma fabs_fmul: "\<not> sign_bit e \<Longrightarrow> fabs (fmul f r e) = fmul f e (fabs r)"
  by (cases r; cases e) (simp_all add: fabs_round_t mult.commute add.commute)

lemma less_t_zero:
  "less_t (Finite s0 0 a) y = (case y of NaN \<Rightarrow> False | Infinity s \<Rightarrow> \<not> s | Finite s m e \<Rightarrow> \<not> s \<and> 0 < m)"
  by (cases y) (auto simp: with_sign_def zero_less_mult_iff mult_less_0_iff)

lemma round_shift_lower: "2 ^ k \<le> M \<Longrightarrow> 0 < round_shift M k"
proof -
  assume "2 ^ k \<le> M"
  then have "0 < M div 2 ^ k" by (simp add: div_greater_zero_iff)
  then show ?thesis by (simp add: round_shift_def Let_def)
qed

lemma round_t_positive:
  assumes p: "0 < prec f" and M: "0 < M" and tiny: "E < etiny f \<Longrightarrow> 2 ^ nat (etiny f - E) \<le> M"
  shows "less_t (Finite False 0 a) (round_t f False M E)"
proof -
  define e where "e = max (E + int (bits M) - int (prec f)) (etiny f)"
  define m where "m = (if e \<le> E then M * 2 ^ nat (E - e) else round_shift M (nat (e - E)))"
  have m: "0 < m"
  proof (cases "e \<le> E")
    case True
    then show ?thesis using M by (simp add: m_def)
  next
    case False
    have "2 ^ nat (e - E) \<le> M"
    proof (cases "e = etiny f")
      case True
      then show ?thesis using tiny False by simp
    next
      case ne: False
      then have e: "e = E + int (bits M) - int (prec f)" by (simp add: e_def max_def split: if_splits)
      then have "nat (e - E) \<le> bits M - 1" using p by simp
      then have "(2::nat) ^ nat (e - E) \<le> 2 ^ (bits M - 1)" by (simp add: power_increasing)
      also have "\<dots> \<le> M" using bits_lower[OF M] .
      finally show ?thesis .
    qed
    then show ?thesis using False by (simp add: m_def round_shift_lower)
  qed
  have "round_t f False M E =
     (let e' = (if m = 2 ^ prec f then e + 1 else e);
          m' = (if m = 2 ^ prec f then 2 ^ (prec f - 1) else m)
      in if etop f < e' then Infinity False else Finite False m' e')"
    using M by (simp add: round_t_def Let_def e_def m_def)
  then show ?thesis using m unfolding less_t_zero by (simp add: Let_def)
qed

lemma within_tolerance_same:
  assumes p: "0 < prec f" and eps: "is_real_t f eps" and pos0: "less_t (Finite False 0 0) eps"
  shows "within_tolerance f (Finite s m e) (Finite s m e) eps"
proof -
  have pos: "less_t (Finite False 0 (etiny f)) eps" using pos0 unfolding less_t_zero .
  have d: "fabs (fsub f (Finite s m e) (Finite s m e)) = Finite False 0 (etiny f)"
    by (simp add: Let_def)
  show ?thesis
  proof (cases "greater_t (fabs (Finite s m e)) one_t")
    case False
    then show ?thesis using pos by (simp add: within_tolerance_def Let_def d del: fsub.simps)
  next
    case True
    then have big: "2 ^ nat (0 - min 0 e) < int m * 2 ^ nat (e - min 0 e)"
      by (simp add: greater_t_def one_t_def with_sign_def)
    then have m0: "0 < m" by (cases "m = 0") simp_all
    have "less_t (Finite False 0 (etiny f)) (fabs (fmul f (Finite s m e) eps))"
    proof (cases eps)
      case NaN
      then show ?thesis using pos by simp
    next
      case (Infinity s')
      then show ?thesis using pos m0 unfolding less_t_zero by simp
    next
      case (Finite s' m' e')
      have m': "0 < m'" and s': "\<not> s'" using pos Finite unfolding less_t_zero by simp_all
      have e': "etiny f \<le> e'" using eps Finite by simp
      have "less_t (Finite False 0 (etiny f)) (round_t f False (m * m') (e + e'))"
      proof (rule round_t_positive[OF p])
        show "0 < m * m'" using m0 m' by simp
      next
        assume "e + e' < etiny f"
        then have e: "e < 0" and le: "nat (etiny f - (e + e')) \<le> nat (- e)" using e' by simp_all
        have "(2::nat) ^ nat (etiny f - (e + e')) \<le> 2 ^ nat (- e)" using le by (simp add: power_increasing)
        also have "\<dots> \<le> m"
        proof -
          have "2 ^ nat (- e) < int m" using big e by (simp add: min_def)
          then have "int (2 ^ nat (- e)) < int m" by simp
          then show ?thesis by linarith
        qed
        also have "\<dots> \<le> m * m'" using m' by simp
        finally show "2 ^ nat (etiny f - (e + e')) \<le> m * m'" .
      qed
      then show ?thesis using Finite by (simp add: fabs_round_t)
    qed
    then show ?thesis using True by (simp add: within_tolerance_def Let_def d del: fsub.simps)
  qed
qed

lemma within_tolerance_lanes_all:
  "0 \<le> j \<Longrightarrow> int (length val) = VLEN \<Longrightarrow> int (length ref) = VLEN \<Longrightarrow> int (length epsilon) = VLEN \<Longrightarrow>
   within_tolerance_lanes f VLEN j val ref epsilon
     = Inr (\<forall>k. nat j \<le> k \<and> k < nat VLEN \<longrightarrow> within_tolerance f (val ! k) (ref ! k) (epsilon ! k))"
proof (induction f VLEN j val ref epsilon rule: within_tolerance_lanes.induct)
  case (1 f VLEN j val ref epsilon)
  show ?case
  proof (cases "j < VLEN")
    case False
    then show ?thesis using 1 by (subst within_tolerance_lanes.simps) auto
  next
    case True
    have rv: "rd val j = Inr (val ! nat j)" "rd ref j = Inr (ref ! nat j)" "rd epsilon j = Inr (epsilon ! nat j)"
      using True 1 by (simp_all add: rd_def)
    show ?thesis
    proof (cases "within_tolerance f (val ! nat j) (ref ! nat j) (epsilon ! nat j)")
      case False
      have "within_tolerance_lanes f VLEN j val ref epsilon = Inr False"
        by (subst within_tolerance_lanes.simps) (simp add: True rv False)
      moreover have "\<not> (\<forall>k. nat j \<le> k \<and> k < nat VLEN \<longrightarrow> within_tolerance f (val ! k) (ref ! k) (epsilon ! k))"
        using False True 1 by (auto intro!: exI[of _ "nat j"])
      ultimately show ?thesis by simp
    next
      case wt: True
      have "within_tolerance_lanes f VLEN j val ref epsilon = within_tolerance_lanes f VLEN (j + 1) val ref epsilon"
        by (subst within_tolerance_lanes.simps) (simp add: True rv wt)
      also have "\<dots> = Inr (\<forall>k. nat (j + 1) \<le> k \<and> k < nat VLEN \<longrightarrow> within_tolerance f (val ! k) (ref ! k) (epsilon ! k))"
        using "1.IH"[OF True rv(1) rv(2) rv(3)] wt 1 by simp
      also have "(\<forall>k. nat (j + 1) \<le> k \<and> k < nat VLEN \<longrightarrow> within_tolerance f (val ! k) (ref ! k) (epsilon ! k))
         = (\<forall>k. nat j \<le> k \<and> k < nat VLEN \<longrightarrow> within_tolerance f (val ! k) (ref ! k) (epsilon ! k))"
      proof -
        have "\<And>k. nat j \<le> k \<longleftrightarrow> k = nat j \<or> nat (j + 1) \<le> k" using 1 by auto
        then show ?thesis using wt by auto
      qed
      finally show ?thesis .
    qed
  qed
qed

lemma within_tolerance_unfold:
  "within_tolerance f v r e
     = less_t (fabs (fsub f v r)) (if greater_t (fabs r) one_t then fabs (fmul f r e) else e)"
  by (simp add: within_tolerance_def Let_def)

lemma valof_fabs: "valof (fabs (Finite s m e)) = \<bar>valof (Finite s m e)\<bar>"
proof -
  have "(0::real) < 2 powi e" by (simp add: zero_less_power_int)
  then show ?thesis by (cases s) (simp_all add: with_sign_def abs_mult)
qed

lemma greater_one_valof:
  "greater_t (fabs (Finite s m e)) one_t = (1 < \<bar>valof (Finite s m e)\<bar>)"
proof -
  have "greater_t (fabs (Finite s m e)) one_t = (valof (Finite False 1 0) < valof (fabs (Finite s m e)))"
    unfolding greater_t_def one_t_def fabs.simps by (rule less_t_valof)
  also have "valof (Finite False 1 0) = 1" by (simp add: with_sign_def)
  finally show ?thesis by (simp only: valof_fabs)
qed

text \<open>Rules that evaluate the operations on numerals.\<close>

lemma bits_0: "bits 0 = 0"
  by (simp add: bits.simps)

lemma bits_1: "bits (Suc 0) = Suc 0"
  by (subst bits.simps, subst bits.simps) simp

lemma bits_numeral: "bits (numeral k) = Suc (bits (numeral k div 2))"
  by (subst bits.simps) simp

lemmas fp_eval = bits_0 bits_1 bits_numeral binary32_def binary64_def etiny_def etop_def
  round_t_def round_shift_def with_sign_def Let_def within_tolerance_unfold greater_t_def one_t_def

text \<open>
  Rounding at work in \<^verbatim>\<open>double\<close>: \<open>1 - 2^-60\<close> is 1; \<open>2^53 + 1\<close> and \<open>2^53 + 3\<close> are
  ties and go to the even neighbours \<open>2^53\<close> and \<open>2^53 + 4\<close>; \<open>3 * 2^-1075\<close> is a tie
  between two subnormal numbers, \<open>2^-1075\<close> one between 0 and the least number;
  \<open>(2^54 - 1) * 2^970\<close> is beyond the largest number \<open>(2^53 - 1) * 2^971\<close>.
\<close>

lemma rounding_examples:
  "fsub binary64 (Finite False 1 0) (Finite False 1 (- 60)) = Finite False (2 ^ 52) (- 52)"
  "fmul binary64 (Finite False (2 ^ 53 + 1) 0) (Finite False 1 0) = Finite False (2 ^ 52) 1"
  "fmul binary64 (Finite False (2 ^ 53 + 3) 0) (Finite False 1 0) = Finite False (2 ^ 52 + 2) 1"
  "fmul binary64 (Finite False 3 (- 1000)) (Finite False 1 (- 75)) = Finite False 2 (- 1074)"
  "fmul binary64 (Finite False 1 (- 1000)) (Finite False 1 (- 75)) = Finite False 0 (- 1074)"
  "fmul binary64 (Finite False (2 ^ 54 - 1) 970) (Finite False 1 0) = Infinity False"
  "fmul binary64 (Finite False (2 ^ 53 - 1) 971) (Finite True 1 0) = Finite True (2 ^ 53 - 1) 971"
  by (simp_all add: fp_eval)

text \<open>
  The literals of the claim. \<open>1000.0\<close>, \<open>1000.5 = 2001 * 2^-1\<close> and \<open>0.0\<close> are numbers
  of both formats. \<open>1e-3\<close> and \<open>0.0005\<close> are not: they are read as the nearest number
  of the format, \<open>4611686018427388 * 2^-62\<close> and \<open>4611686018427388 * 2^-63\<close> in
  \<^verbatim>\<open>double\<close>, \<open>8589935 * 2^-33\<close> and \<open>8589935 * 2^-34\<close> in \<^verbatim>\<open>float\<close>, each with all
  the bits of the precision and within half a unit of its last bit.
\<close>

lemma literals:
  "valof (Finite False 1000 0) = 1000" "valof (Finite False 2001 (- 1)) = 1000.5"
  "is_real_t binary64 (Finite False 4611686018427388 (- 62))"
  "2 ^ 52 \<le> (4611686018427388 :: nat)"
  "\<bar>valof (Finite False 4611686018427388 (- 62)) - 1 / 1000\<bar> \<le> 2 powi (- 62) / 2"
  "is_real_t binary64 (Finite False 4611686018427388 (- 63))"
  "\<bar>valof (Finite False 4611686018427388 (- 63)) - 5 / 10000\<bar> \<le> 2 powi (- 63) / 2"
  "is_real_t binary32 (Finite False 8589935 (- 33))"
  "2 ^ 23 \<le> (8589935 :: nat)"
  "\<bar>valof (Finite False 8589935 (- 33)) - 1 / 1000\<bar> \<le> 2 powi (- 33) / 2"
  "is_real_t binary32 (Finite False 8589935 (- 34))"
  "\<bar>valof (Finite False 8589935 (- 34)) - 5 / 10000\<bar> \<le> 2 powi (- 34) / 2"
  by (simp_all add: fp_eval)

text \<open>
  C7, as the code has it. \<^verbatim>\<open>within_tolerance\<close> on vectors returns the conjunction
  over all lanes of the test \<open>|value - reference| < effectiveEpsilon\<close>, computed in the
  floating-point arithmetic of the lanes: the difference is rounded to the format, a
  comparison with a NaN is false, and \<open>effectiveEpsilon\<close> is \<open>epsilon\<close> unless
  \<open>|reference| > 1\<close>, and then the rounded product \<open>|reference * epsilon|\<close>, which is
  the rounded \<open>epsilon * |reference|\<close> when the sign bit of \<open>epsilon\<close> is clear; for a
  finite reference, \<open>|reference| > 1\<close> is decided as for the numbers themselves. Hence
  \<open>within_tolerance(x, x, eps)\<close> holds for every finite \<open>x\<close> and every \<open>eps > 0\<close> of
  the format; in \<^verbatim>\<open>double\<close> and in \<^verbatim>\<open>float\<close>, \<open>within_tolerance(1000.0, 1000.5, 1e-3)\<close>
  holds with \<open>|reference| > 1\<close>, and \<open>within_tolerance(0.0005, 0.0, 1e-3)\<close> holds
  without.
\<close>

theorem within_tolerance_all_lanes:
  assumes "int (length val) = VLEN" and "int (length ref) = VLEN"
    and "int (length epsilon) = VLEN"
  shows "within_tolerance_vec f VLEN val ref epsilon
       = Inr (\<forall>j. j < nat VLEN \<longrightarrow>
                less_t (fabs (fsub f (val ! j) (ref ! j)))
                  (if greater_t (fabs (ref ! j)) one_t
                   then fabs (fmul f (ref ! j) (epsilon ! j)) else epsilon ! j))
     \<and> (\<forall>r e. \<not> sign_bit e \<longrightarrow> fabs (fmul f r e) = fmul f e (fabs r))
     \<and> (\<forall>s m e eps. 0 < prec f \<and> is_real_t f eps \<and> less_t (Finite False 0 0) eps \<longrightarrow>
            within_tolerance f (Finite s m e) (Finite s m e) eps)
     \<and> (\<forall>s m e. greater_t (fabs (Finite s m e)) one_t = (1 < \<bar>valof (Finite s m e)\<bar>))
     \<and> within_tolerance binary64 (Finite False 1000 0) (Finite False 2001 (- 1))
          (Finite False 4611686018427388 (- 62))
     \<and> within_tolerance binary32 (Finite False 1000 0) (Finite False 2001 (- 1))
          (Finite False 8589935 (- 33))
     \<and> greater_t (fabs (Finite False 2001 (- 1))) one_t
     \<and> within_tolerance binary64 (Finite False 4611686018427388 (- 63)) (Finite False 0 0)
          (Finite False 4611686018427388 (- 62))
     \<and> within_tolerance binary32 (Finite False 8589935 (- 34)) (Finite False 0 0)
          (Finite False 8589935 (- 33))
     \<and> \<not> greater_t (fabs (Finite False 0 0)) one_t"
proof -
  have lanes: "within_tolerance_vec f VLEN val ref epsilon
       = Inr (\<forall>j. j < nat VLEN \<longrightarrow>
                less_t (fabs (fsub f (val ! j) (ref ! j)))
                  (if greater_t (fabs (ref ! j)) one_t
                   then fabs (fmul f (ref ! j) (epsilon ! j)) else epsilon ! j))"
    using within_tolerance_lanes_all[of 0 val VLEN ref epsilon f] assms
    by (simp add: within_tolerance_vec_def within_tolerance_unfold)
  have sym: "\<forall>r e. \<not> sign_bit e \<longrightarrow> fabs (fmul f r e) = fmul f e (fabs r)"
    by (simp add: fabs_fmul)
  have same: "\<forall>s m e eps. 0 < prec f \<and> is_real_t f eps \<and> less_t (Finite False 0 0) eps \<longrightarrow>
            within_tolerance f (Finite s m e) (Finite s m e) eps"
    using within_tolerance_same by blast
  have one: "\<forall>s m e. greater_t (fabs (Finite s m e)) one_t = (1 < \<bar>valof (Finite s m e)\<bar>)"
    by (simp only: greater_one_valof) simp
  have c1: "within_tolerance binary64 (Finite False 1000 0) (Finite False 2001 (- 1))
          (Finite False 4611686018427388 (- 62))"
    by (simp add: fp_eval)
  have c2: "within_tolerance binary32 (Finite False 1000 0) (Finite False 2001 (- 1))
          (Finite False 8589935 (- 33))"
    by (simp add: fp_eval)
  have c3: "greater_t (fabs (Finite False 2001 (- 1))) one_t"
    by (simp add: fp_eval)
  have c4: "within_tolerance binary64 (Finite False 4611686018427388 (- 63)) (Finite False 0 0)
          (Finite False 4611686018427388 (- 62))"
    by (simp add: fp_eval)
  have c5: "within_tolerance binary32 (Finite False 8589935 (- 34)) (Finite False 0 0)
          (Finite False 8589935 (- 33))"
    by (simp add: fp_eval)
  have c6: "\<not> greater_t (fabs (Finite False 0 0)) one_t"
    by (simp add: fp_eval)
  show ?thesis
    by (intro conjI lanes sym same one c1 c2 c3 c4 c5 c6)
qed

theorem within_tolerance_all_lanes_witness:
  "within_tolerance_vec binary64 2
       [Finite False 1000 0, Finite False 4611686018427388 (- 63)]
       [Finite False 2001 (- 1), Finite False 0 0]
       [Finite False 4611686018427388 (- 62), Finite False 4611686018427388 (- 62)] = Inr True
   \<and> within_tolerance_vec binary64 2
       [Finite False 1000 0, Finite False 4611686018427388 (- 61)]
       [Finite False 2001 (- 1), Finite False 0 0]
       [Finite False 4611686018427388 (- 62), Finite False 4611686018427388 (- 62)] = Inr False
   \<and> fabs (fmul binary64 (Finite True 3 0) (Finite False 5 0))
       = fmul binary64 (Finite False 5 0) (fabs (Finite True 3 0))
   \<and> within_tolerance binary64 (Finite True 7 0) (Finite True 7 0)
       (Finite False 4611686018427388 (- 62))"
proof -
  let ?eps = "Finite False 4611686018427388 (- 62)"
  let ?v = "[Finite False 1000 0, Finite False 4611686018427388 (- 63)]"
  let ?w = "[Finite False 1000 0, Finite False 4611686018427388 (- 61)]"
  let ?r = "[Finite False 2001 (- 1), Finite False 0 0]"
  let ?e = "[?eps, ?eps]"
  have two: "\<And>P. (\<forall>j. j < (2::nat) \<longrightarrow> P j) = (P 0 \<and> P 1)"
    by (auto simp: less_Suc_eq numeral_2_eq_2)
  have len: "int (length ?v) = 2" "int (length ?w) = 2" "int (length ?r) = 2" "int (length ?e) = 2"
    by simp_all
  note a = within_tolerance_all_lanes [OF len(1) len(3) len(4), of binary64]
  note b = within_tolerance_all_lanes [OF len(2) len(3) len(4), of binary64]
  have 1: "within_tolerance_vec binary64 2 ?v ?r ?e = Inr True"
    using a [THEN conjunct1] by (simp add: two fp_eval split del: if_split)
  have 2: "within_tolerance_vec binary64 2 ?w ?r ?e = Inr False"
    using b [THEN conjunct1] by (simp add: two fp_eval split del: if_split)
  have "\<not> sign_bit (Finite False 5 0)" by simp
  then have 3: "fabs (fmul binary64 (Finite True 3 0) (Finite False 5 0))
       = fmul binary64 (Finite False 5 0) (fabs (Finite True 3 0))"
    using a [THEN conjunct2, THEN conjunct1] by blast
  have "0 < prec binary64 \<and> is_real_t binary64 ?eps \<and> less_t (Finite False 0 0) ?eps"
    by (simp add: fp_eval)
  then have 4: "within_tolerance binary64 (Finite True 7 0) (Finite True 7 0) ?eps"
    using a [THEN conjunct2, THEN conjunct2, THEN conjunct1] by blast
  show ?thesis using 1 2 3 4 by (intro conjI)
qed

text \<open>
  C7, as the claim states it, fails in two ways. With \<open>epsilon * |reference|\<close> for
  \<open>|reference| > 1\<close>: at one lane with \<open>value = reference = 2\<close> and \<open>epsilon = -1\<close> the
  code answers \<open>true\<close> in both formats, and the test \<open>|2 - 2| < -1 * |2|\<close> of the claim
  is false, in floating-point arithmetic as in exact arithmetic. With the difference
  taken exactly: at \<open>value = 1\<close>, \<open>reference = 2^-60\<close> and \<open>epsilon = 1\<close> the code
  answers \<open>false\<close> in both formats, the difference \<open>1 - 2^-60\<close> being rounded to 1,
  and \<open>|1 - 2^-60| < 1\<close> is true with \<open>|2^-60| \<le> 1\<close>.
\<close>

theorem within_tolerance_claim_fails:
  "within_tolerance_vec binary64 1 [Finite False 2 0] [Finite False 2 0] [Finite True 1 0] = Inr True
   \<and> within_tolerance_vec binary32 1 [Finite False 2 0] [Finite False 2 0] [Finite True 1 0] = Inr True
   \<and> greater_t (fabs (Finite False 2 0)) one_t
   \<and> \<not> less_t (fabs (fsub binary64 (Finite False 2 0) (Finite False 2 0)))
          (fmul binary64 (Finite True 1 0) (fabs (Finite False 2 0)))
   \<and> \<not> less_t (fabs (fsub binary32 (Finite False 2 0) (Finite False 2 0)))
          (fmul binary32 (Finite True 1 0) (fabs (Finite False 2 0)))
   \<and> valof (Finite False 2 0) = 2 \<and> valof (Finite True 1 0) = - 1
   \<and> \<not> (\<bar>2 - 2\<bar> < (- 1) * \<bar>2 :: real\<bar>)
   \<and> within_tolerance_vec binary64 1 [Finite False 1 0] [Finite False 1 (- 60)] [Finite False 1 0]
       = Inr False
   \<and> within_tolerance_vec binary32 1 [Finite False 1 0] [Finite False 1 (- 60)] [Finite False 1 0]
       = Inr False
   \<and> is_real_t binary64 (Finite False 1 (- 60)) \<and> is_real_t binary32 (Finite False 1 (- 60))
   \<and> valof (Finite False 1 0) = 1 \<and> valof (Finite False 1 (- 60)) = 1 / 2 ^ 60
   \<and> \<not> \<bar>1 / 2 ^ 60 :: real\<bar> > 1
   \<and> \<bar>1 - 1 / 2 ^ 60 :: real\<bar> < 1"
  by (simp add: within_tolerance_vec_def within_tolerance_lanes.simps rd_def fp_eval)

subsection \<open>The order of tuples\<close>

lemma makeDimStr_fold:
  "0 < k \<Longrightarrow>
   fst (fold (\<lambda>i (oss, n). ((if n \<noteq> (0::int) then oss @ sep else oss) @ [] @ fst i @ [], n + 1))
          xs (acc, k))
     = acc @ concat (map (\<lambda>i. sep @ fst i) xs)"
  by (induction xs arbitrary: acc k) simp_all

lemma comma_joined_Cons:
  "comma_joined (n # ns) = n @ concat (map (\<lambda>m. '', '' @ m) ns)"
  by (induction ns arbitrary: n) simp_all

lemma makeDimStr_comma_joined: "makeDimStr t '', '' [] [] = comma_joined (map fst (tq t))"
proof (cases "tq t")
  case Nil
  then show ?thesis by (simp add: makeDimStr_def)
next
  case (Cons i rest)
  have "makeDimStr t '', '' [] []
      = fst (fold (\<lambda>i (oss, n). ((if n \<noteq> (0::int) then oss @ '', '' else oss) @ [] @ fst i @ [], n + 1))
          rest (fst i, 1))"
    by (simp add: makeDimStr_def Cons)
  also have "\<dots> = fst i @ concat (map (\<lambda>i. '', '' @ fst i) rest)"
    by (rule makeDimStr_fold) simp
  also have "\<dots> = comma_joined (map fst (tq t))"
    by (simp add: Cons comma_joined_Cons comp_def)
  finally show ?thesis .
qed

lemma getVal_Some: "lookup rhs d = Some v \<Longrightarrow> getVal rhs d = Inr v"
  by (simp add: getVal_def)

lemma less_loop_lex:
  "list_all (\<lambda>i. lookup rhs (fst i) \<noteq> None) xs \<Longrightarrow>
   less_loop xs rhs = Inr (map snd xs < map (\<lambda>i. the (lookup rhs (fst i))) xs)"
proof (induction xs)
  case Nil
  then show ?case by simp
next
  case (Cons i xs)
  then obtain v where v: "lookup rhs (fst i) = Some v" by auto
  show ?case using Cons v by (auto simp: getVal_Some)
qed

lemma eq_loop_eq:
  "list_all (\<lambda>i. lookup rhs (fst i) \<noteq> None) xs \<Longrightarrow>
   eq_loop xs rhs = Inr (map snd xs = map (\<lambda>i. the (lookup rhs (fst i))) xs)"
proof (induction xs)
  case Nil
  then show ?case by simp
next
  case (Cons i xs)
  then obtain v where v: "lookup rhs (fst i) = Some v" by auto
  show ?case using Cons v by (auto simp: getVal_Some)
qed

lemma lookup_own:
  "distinct (map fst xs) \<Longrightarrow> map (\<lambda>i. the (map_of xs (fst i))) xs = map snd xs"
  by (induction xs) (auto simp: rev_image_eqI)

lemma areDimsSame_iff:
  "areDimsSame a b \<longleftrightarrow> length (tq a) = length (tq b) \<and> fst ` set (tq a) \<subseteq> fst ` set (tq b)"
  by (auto simp: areDimsSame_def getNumDims_def list_all_iff lookup_None_iff)

lemma areDimsSame_names:
  assumes "wf_Tuple a" "wf_Tuple b" "areDimsSame a b"
  shows "fst ` set (tq a) = fst ` set (tq b)"
proof -
  have len: "length (tq a) = length (tq b)" and sub: "fst ` set (tq a) \<subseteq> fst ` set (tq b)"
    using assms(3) by (simp_all add: areDimsSame_iff)
  have "card (fst ` set (tq a)) = length (tq a)" "card (fst ` set (tq b)) = length (tq b)"
    using assms(1,2) distinct_card[of "map fst (tq a)"] distinct_card[of "map fst (tq b)"]
    by (simp_all add: wf_Tuple_def)
  then show ?thesis
    using sub len by (intro card_subset_eq) simp_all
qed

lemma areDimsSame_sym:
  assumes "wf_Tuple a" "wf_Tuple b" "areDimsSame a b"
  shows "areDimsSame b a"
  using areDimsSame_names[OF assms] assms(3) by (simp add: areDimsSame_iff)

lemma Tuple_less_sizes:
  "getNumDims a < getNumDims b \<Longrightarrow> Tuple_less a b = Inr True"
  "getNumDims b < getNumDims a \<Longrightarrow> Tuple_less a b = Inr False"
  by (simp_all add: Tuple_less_def)

lemma Tuple_less_same:
  "areDimsSame a b \<Longrightarrow>
   Tuple_less a b = Inr (map snd (tq a) < map (\<lambda>i. the (lookup b (fst i))) (tq a))"
  using less_loop_lex[of b "tq a"]
  by (auto simp: Tuple_less_def areDimsSame_def split: if_splits)

lemma Tuple_less_other:
  "getNumDims a = getNumDims b \<Longrightarrow> \<not> areDimsSame a b \<Longrightarrow>
   Tuple_less a b = Inr (comma_joined (map fst (tq a)) < comma_joined (map fst (tq b)))"
  by (simp add: Tuple_less_def makeDimStr_comma_joined)

lemma Tuple_eq_same:
  "areDimsSame a b \<Longrightarrow>
   Tuple_eq a b = Inr (map snd (tq a) = map (\<lambda>i. the (lookup b (fst i))) (tq a))"
  using eq_loop_eq[of b "tq a"]
  by (auto simp: Tuple_eq_def areDimsSame_def split: if_splits)

lemma ordered_from_values:
  fixes x y :: "'a::linorder"
  assumes "Tuple_less a b = Inr (x < y)" "Tuple_less b a = Inr (y < x)"
    "Tuple_eq a b = Inr (x = y)" "Tuple_eq b a = Inr (y = x)"
  shows "((Tuple_less a b = Inr True \<and> Tuple_less b a = Inr False \<and> Tuple_eq a b = Inr False)
       \<or> (Tuple_less a b = Inr False \<and> Tuple_less b a = Inr True \<and> Tuple_eq a b = Inr False)
       \<or> (Tuple_less a b = Inr False \<and> Tuple_less b a = Inr False \<and> Tuple_eq a b = Inr True))
     \<and> Tuple_ne a b = Inr (Tuple_eq a b = Inr False)
     \<and> Tuple_le a b = Inr (Tuple_less a b = Inr True \<or> Tuple_eq a b = Inr True)
     \<and> Tuple_gt a b = Tuple_less b a
     \<and> Tuple_ge a b = Tuple_le b a"
proof -
  consider "x < y" | "y < x" | "x = y" by (metis less_linear)
  then show ?thesis
  proof cases
    case 1
    then have "\<not> y < x" "x \<noteq> y" "y \<noteq> x" by auto
    then show ?thesis using 1 assms
      by (simp add: Tuple_ne_def Tuple_le_def Tuple_gt_def Tuple_ge_def)
  next
    case 2
    then have "\<not> x < y" "x \<noteq> y" "y \<noteq> x" by auto
    then show ?thesis using 2 assms
      by (simp add: Tuple_ne_def Tuple_le_def Tuple_gt_def Tuple_ge_def)
  next
    case 3
    then have "\<not> x < y" "\<not> y < x" by auto
    then show ?thesis using 3 assms
      by (simp add: Tuple_ne_def Tuple_le_def Tuple_gt_def Tuple_ge_def)
  qed
qed

lemma ordered_sizes:
  assumes "getNumDims a \<noteq> getNumDims b"
  shows "((Tuple_less a b = Inr True \<and> Tuple_less b a = Inr False \<and> Tuple_eq a b = Inr False)
       \<or> (Tuple_less a b = Inr False \<and> Tuple_less b a = Inr True \<and> Tuple_eq a b = Inr False)
       \<or> (Tuple_less a b = Inr False \<and> Tuple_less b a = Inr False \<and> Tuple_eq a b = Inr True))
     \<and> Tuple_ne a b = Inr (Tuple_eq a b = Inr False)
     \<and> Tuple_le a b = Inr (Tuple_less a b = Inr True \<or> Tuple_eq a b = Inr True)
     \<and> Tuple_gt a b = Tuple_less b a
     \<and> Tuple_ge a b = Tuple_le b a"
proof -
  have e: "Tuple_eq a b = Inr (getNumDims a = getNumDims b)"
    "Tuple_eq b a = Inr (getNumDims b = getNumDims a)"
    using assms by (simp_all add: Tuple_eq_def areDimsSame_def)
  have l: "Tuple_less a b = Inr (getNumDims a < getNumDims b)"
    "Tuple_less b a = Inr (getNumDims b < getNumDims a)"
    using assms by (auto simp: Tuple_less_def)
  show ?thesis using l e by (rule ordered_from_values)
qed

lemma ordered_names:
  assumes "wf_Tuple a" "wf_Tuple b" "map fst (tq a) = map fst (tq b)"
  shows "((Tuple_less a b = Inr True \<and> Tuple_less b a = Inr False \<and> Tuple_eq a b = Inr False)
       \<or> (Tuple_less a b = Inr False \<and> Tuple_less b a = Inr True \<and> Tuple_eq a b = Inr False)
       \<or> (Tuple_less a b = Inr False \<and> Tuple_less b a = Inr False \<and> Tuple_eq a b = Inr True))
     \<and> Tuple_ne a b = Inr (Tuple_eq a b = Inr False)
     \<and> Tuple_le a b = Inr (Tuple_less a b = Inr True \<or> Tuple_eq a b = Inr True)
     \<and> Tuple_gt a b = Tuple_less b a
     \<and> Tuple_ge a b = Tuple_le b a"
proof -
  have len: "length (tq a) = length (tq b)" using assms(3) by (metis length_map)
  have set: "fst ` set (tq a) = fst ` set (tq b)" using assms(3) by (metis list.set_map)
  have ab: "areDimsSame a b" and ba: "areDimsSame b a"
    using len set by (simp_all add: areDimsSame_iff)
  have "map (\<lambda>i. the (lookup b (fst i))) (tq a) = map (\<lambda>n. the (map_of (tq b) n)) (map fst (tq a))"
    by (simp add: lookup_def comp_def)
  also have "\<dots> = map (\<lambda>i. the (map_of (tq b) (fst i))) (tq b)"
    by (simp add: assms(3) comp_def)
  also have "\<dots> = map snd (tq b)" using assms(2) by (simp add: lookup_own wf_Tuple_def)
  finally have vb: "map (\<lambda>i. the (lookup b (fst i))) (tq a) = map snd (tq b)" .
  have "map (\<lambda>i. the (lookup a (fst i))) (tq b) = map (\<lambda>n. the (map_of (tq a) n)) (map fst (tq b))"
    by (simp add: lookup_def comp_def)
  also have "\<dots> = map (\<lambda>i. the (map_of (tq a) (fst i))) (tq a)"
    by (simp add: assms(3)[symmetric] comp_def)
  also have "\<dots> = map snd (tq a)" using assms(1) by (simp add: lookup_own wf_Tuple_def)
  finally have va: "map (\<lambda>i. the (lookup a (fst i))) (tq b) = map snd (tq a)" .
  have l1: "Tuple_less a b = Inr (map snd (tq a) < map snd (tq b))"
    using Tuple_less_same[OF ab] vb by simp
  have l2: "Tuple_less b a = Inr (map snd (tq b) < map snd (tq a))"
    using Tuple_less_same[OF ba] va by simp
  have l3: "Tuple_eq a b = Inr (map snd (tq a) = map snd (tq b))"
    using Tuple_eq_same[OF ab] vb by simp
  have l4: "Tuple_eq b a = Inr (map snd (tq b) = map snd (tq a))"
    using Tuple_eq_same[OF ba] va by simp
  show ?thesis using l1 l2 l3 l4 by (rule ordered_from_values)
qed

lemma ordered_strings:
  assumes "wf_Tuple a" "wf_Tuple b" "getNumDims a = getNumDims b" "\<not> areDimsSame a b"
    "comma_joined (map fst (tq a)) \<noteq> comma_joined (map fst (tq b))"
  shows "((Tuple_less a b = Inr True \<and> Tuple_less b a = Inr False \<and> Tuple_eq a b = Inr False)
       \<or> (Tuple_less a b = Inr False \<and> Tuple_less b a = Inr True \<and> Tuple_eq a b = Inr False)
       \<or> (Tuple_less a b = Inr False \<and> Tuple_less b a = Inr False \<and> Tuple_eq a b = Inr True))
     \<and> Tuple_ne a b = Inr (Tuple_eq a b = Inr False)
     \<and> Tuple_le a b = Inr (Tuple_less a b = Inr True \<or> Tuple_eq a b = Inr True)
     \<and> Tuple_gt a b = Tuple_less b a
     \<and> Tuple_ge a b = Tuple_le b a"
proof -
  let ?sa = "comma_joined (map fst (tq a))" and ?sb = "comma_joined (map fst (tq b))"
  have nba: "\<not> areDimsSame b a" using areDimsSame_sym[OF assms(2) assms(1)] assms(4) by blast
  have l1: "Tuple_less a b = Inr (?sa < ?sb)"
    using Tuple_less_other[OF assms(3) assms(4)] .
  have l2: "Tuple_less b a = Inr (?sb < ?sa)"
    using Tuple_less_other[OF assms(3)[symmetric] nba] .
  have l3: "Tuple_eq a b = Inr (?sa = ?sb)" using assms(4,5) by (simp add: Tuple_eq_def)
  have l4: "Tuple_eq b a = Inr (?sb = ?sa)" using nba assms(5) by (simp add: Tuple_eq_def)
  show ?thesis using l1 l2 l3 l4 by (rule ordered_from_values)
qed

text \<open>
  C5, as the code has it. For tuples \<open>a\<close> and \<open>b\<close>, \<open>a < b\<close> holds when \<open>a\<close> has
  fewer dimensions and fails when it has more; with equal counts and the same set of
  names, the first differing value decides, taken dimension by dimension in the order of
  \<open>a\<close> (the lexicographic order of the two lists of values); otherwise the
  comma-joined strings of names decide lexicographically. When the counts differ, or
  both tuples list the same names in the same order, or the sets of names differ and
  the joined strings differ, exactly one of \<open>a < b\<close>, \<open>b < a\<close>, \<open>a == b\<close> holds, and
  \<open>!=\<close>, \<open><=\<close>, \<open>>\<close>, \<open>>=\<close> agree with it.
\<close>

theorem Tuple_less_order:
  assumes "wf_Tuple a" and "wf_Tuple b"
  shows "(getNumDims a < getNumDims b \<longrightarrow> Tuple_less a b = Inr True)
     \<and> (getNumDims b < getNumDims a \<longrightarrow> Tuple_less a b = Inr False)
     \<and> (areDimsSame a b \<longrightarrow>
          Tuple_less a b
            = Inr (map snd (tq a) < map (\<lambda>i. the (lookup b (fst i))) (tq a)))
     \<and> (getNumDims a = getNumDims b \<and> \<not> areDimsSame a b \<longrightarrow>
          makeDimStr a '', '' [] [] = comma_joined (map fst (tq a))
          \<and> makeDimStr b '', '' [] [] = comma_joined (map fst (tq b))
          \<and> Tuple_less a b
            = Inr (comma_joined (map fst (tq a)) < comma_joined (map fst (tq b))))
     \<and> (getNumDims a \<noteq> getNumDims b
          \<or> map fst (tq a) = map fst (tq b)
          \<or> (\<not> areDimsSame a b
               \<and> comma_joined (map fst (tq a)) \<noteq> comma_joined (map fst (tq b)))
        \<longrightarrow>
          ((Tuple_less a b = Inr True \<and> Tuple_less b a = Inr False \<and> Tuple_eq a b = Inr False)
           \<or> (Tuple_less a b = Inr False \<and> Tuple_less b a = Inr True \<and> Tuple_eq a b = Inr False)
           \<or> (Tuple_less a b = Inr False \<and> Tuple_less b a = Inr False \<and> Tuple_eq a b = Inr True))
          \<and> Tuple_ne a b = Inr (Tuple_eq a b = Inr False)
          \<and> Tuple_le a b = Inr (Tuple_less a b = Inr True \<or> Tuple_eq a b = Inr True)
          \<and> Tuple_gt a b = Tuple_less b a
          \<and> Tuple_ge a b = Tuple_le b a)"
proof (intro conjI impI)
  show "getNumDims a < getNumDims b \<Longrightarrow> Tuple_less a b = Inr True"
    by (rule Tuple_less_sizes)
  show "getNumDims b < getNumDims a \<Longrightarrow> Tuple_less a b = Inr False"
    by (rule Tuple_less_sizes)
  show "areDimsSame a b \<Longrightarrow>
      Tuple_less a b = Inr (map snd (tq a) < map (\<lambda>i. the (lookup b (fst i))) (tq a))"
    by (rule Tuple_less_same)
  show "makeDimStr a '', '' [] [] = comma_joined (map fst (tq a))"
    by (rule makeDimStr_comma_joined)
  show "makeDimStr b '', '' [] [] = comma_joined (map fst (tq b))"
    by (rule makeDimStr_comma_joined)
  show "getNumDims a = getNumDims b \<and> \<not> areDimsSame a b \<Longrightarrow>
      Tuple_less a b = Inr (comma_joined (map fst (tq a)) < comma_joined (map fst (tq b)))"
    by (simp add: Tuple_less_other)
next
  assume c: "getNumDims a \<noteq> getNumDims b
          \<or> map fst (tq a) = map fst (tq b)
          \<or> (\<not> areDimsSame a b
               \<and> comma_joined (map fst (tq a)) \<noteq> comma_joined (map fst (tq b)))"
  have all: "((Tuple_less a b = Inr True \<and> Tuple_less b a = Inr False \<and> Tuple_eq a b = Inr False)
       \<or> (Tuple_less a b = Inr False \<and> Tuple_less b a = Inr True \<and> Tuple_eq a b = Inr False)
       \<or> (Tuple_less a b = Inr False \<and> Tuple_less b a = Inr False \<and> Tuple_eq a b = Inr True))
     \<and> Tuple_ne a b = Inr (Tuple_eq a b = Inr False)
     \<and> Tuple_le a b = Inr (Tuple_less a b = Inr True \<or> Tuple_eq a b = Inr True)
     \<and> Tuple_gt a b = Tuple_less b a
     \<and> Tuple_ge a b = Tuple_le b a"
  proof (cases "getNumDims a \<noteq> getNumDims b")
    case True
    then show ?thesis by (rule ordered_sizes)
  next
    case False
    then have sz: "getNumDims a = getNumDims b" by simp
    show ?thesis
    proof (cases "map fst (tq a) = map fst (tq b)")
      case True
      then show ?thesis using assms by (intro ordered_names)
    next
      case False
      then have "\<not> areDimsSame a b"
        "comma_joined (map fst (tq a)) \<noteq> comma_joined (map fst (tq b))"
        using c sz by auto
      then show ?thesis using assms sz by (intro ordered_strings)
    qed
  qed
  show "(Tuple_less a b = Inr True \<and> Tuple_less b a = Inr False \<and> Tuple_eq a b = Inr False)
       \<or> (Tuple_less a b = Inr False \<and> Tuple_less b a = Inr True \<and> Tuple_eq a b = Inr False)
       \<or> (Tuple_less a b = Inr False \<and> Tuple_less b a = Inr False \<and> Tuple_eq a b = Inr True)"
    using all by blast
  show "Tuple_ne a b = Inr (Tuple_eq a b = Inr False)" using all by blast
  show "Tuple_le a b = Inr (Tuple_less a b = Inr True \<or> Tuple_eq a b = Inr True)"
    using all by blast
  show "Tuple_gt a b = Tuple_less b a" using all by blast
  show "Tuple_ge a b = Tuple_le b a" using all by blast
qed

theorem Tuple_less_order_witness:
  "wf_Tuple \<lparr>tq = [(''x'', 1), (''y'', 2)], firstInner = True\<rparr>
   \<and> wf_Tuple \<lparr>tq = [(''x'', 1), (''y'', 3)], firstInner = True\<rparr>
   \<and> map fst (tq \<lparr>tq = [(''x'', 1), (''y'', 2)], firstInner = True\<rparr>)
       = map fst (tq \<lparr>tq = [(''x'', 1), (''y'', 3)], firstInner = True\<rparr>)
   \<and> Tuple_less \<lparr>tq = [(''x'', 1), (''y'', 2)], firstInner = True\<rparr>
                 \<lparr>tq = [(''x'', 1), (''y'', 3)], firstInner = True\<rparr> = Inr True
   \<and> Tuple_less \<lparr>tq = [(''x'', 1), (''y'', 3)], firstInner = True\<rparr>
                 \<lparr>tq = [(''x'', 1), (''y'', 2)], firstInner = True\<rparr> = Inr False
   \<and> Tuple_eq \<lparr>tq = [(''x'', 1), (''y'', 2)], firstInner = True\<rparr>
               \<lparr>tq = [(''x'', 1), (''y'', 3)], firstInner = True\<rparr> = Inr False
   \<and> Tuple_ge \<lparr>tq = [(''x'', 1), (''y'', 2)], firstInner = True\<rparr>
               \<lparr>tq = [(''x'', 1), (''y'', 3)], firstInner = True\<rparr> = Inr False
   \<and> Tuple_less \<lparr>tq = [(''z'', 9)], firstInner = True\<rparr>
                 \<lparr>tq = [(''x'', 1), (''y'', 3)], firstInner = True\<rparr> = Inr True
   \<and> Tuple_less \<lparr>tq = [(''x'', 1), (''y'', 3)], firstInner = True\<rparr>
                 \<lparr>tq = [(''z'', 9)], firstInner = True\<rparr> = Inr False
   \<and> Tuple_less \<lparr>tq = [(''x'', 1), (''y'', 3)], firstInner = True\<rparr>
                 \<lparr>tq = [(''x'', 0), (''z'', 0)], firstInner = True\<rparr> = Inr True"
proof -
  let ?a = "\<lparr>tq = [(''x'', 1), (''y'', 2)], firstInner = True\<rparr>"
  let ?b = "\<lparr>tq = [(''x'', 1), (''y'', 3)], firstInner = True\<rparr>"
  let ?c = "\<lparr>tq = [(''z'', 9)], firstInner = True\<rparr>"
  let ?d = "\<lparr>tq = [(''x'', 0), (''z'', 0)], firstInner = True\<rparr>"
  have wa: "wf_Tuple ?a" and wb: "wf_Tuple ?b" and wc: "wf_Tuple ?c" and wd: "wf_Tuple ?d"
    by (simp_all add: wf_Tuple_def)
  show ?thesis
    using wa wb Tuple_less_order [OF wa wb] Tuple_less_order [OF wc wb]
      Tuple_less_order [OF wb wc] Tuple_less_order [OF wb wd]
    by (simp add: Tuple_less_def Tuple_ge_def Tuple_le_def Tuple_eq_def Tuple_gt_def
        Tuple_ne_def getNumDims_def areDimsSame_def lookup_def getVal_def makeDimStr_def
        less_char_def)
qed

text \<open>
  C5, as the claim states it, for all tuples: \<open>{x: 1, y: 2}\<close> and \<open>{y: 1, x: 2}\<close>
  have the same names in another order, and each is less than the other, while
  \<open>>\<close> denies it; the names \<open>"x, y", "z"\<close> and \<open>"x", "y, z"\<close> give the same string
  \<open>"x, y, z"\<close>, and neither tuple is less than the other although they are not equal.
\<close>

theorem Tuple_less_not_total:
  "Tuple_less \<lparr>tq = [(''x'', 1), (''y'', 2)], firstInner = True\<rparr>
              \<lparr>tq = [(''y'', 1), (''x'', 2)], firstInner = True\<rparr> = Inr True
   \<and> Tuple_less \<lparr>tq = [(''y'', 1), (''x'', 2)], firstInner = True\<rparr>
                 \<lparr>tq = [(''x'', 1), (''y'', 2)], firstInner = True\<rparr> = Inr True
   \<and> Tuple_gt \<lparr>tq = [(''x'', 1), (''y'', 2)], firstInner = True\<rparr>
               \<lparr>tq = [(''y'', 1), (''x'', 2)], firstInner = True\<rparr> = Inr False
   \<and> Tuple_less \<lparr>tq = [(''x, y'', 1), (''z'', 2)], firstInner = True\<rparr>
                 \<lparr>tq = [(''x'', 1), (''y, z'', 2)], firstInner = True\<rparr> = Inr False
   \<and> Tuple_less \<lparr>tq = [(''x'', 1), (''y, z'', 2)], firstInner = True\<rparr>
                 \<lparr>tq = [(''x, y'', 1), (''z'', 2)], firstInner = True\<rparr> = Inr False
   \<and> Tuple_eq \<lparr>tq = [(''x, y'', 1), (''z'', 2)], firstInner = True\<rparr>
               \<lparr>tq = [(''x'', 1), (''y, z'', 2)], firstInner = True\<rparr> = Inr False"
  by (simp add: Tuple_less_def Tuple_gt_def Tuple_le_def Tuple_eq_def getNumDims_def
      areDimsSame_def lookup_def getVal_def makeDimStr_def)

subsection \<open>Layout: the loop as a recursion over the dimensions\<close>

lemma reduce_mult_fold:
  "0 < n \<Longrightarrow>
   fst (fold (\<lambda>i (result, n). ((if n = (0::int) then snd i else result * snd i), n + 1)) xs (r, n))
     = r * prod_list (map snd xs)"
  by (induction xs arbitrary: r n) (simp_all add: mult.assoc)

lemma Tuple_product_prod_list: "Tuple_product t = prod_list (map snd (tq t))"
proof (cases "tq t")
  case Nil
  then show ?thesis by (simp add: Tuple_product_def)
next
  case (Cons i rest)
  then show ?thesis
    using reduce_mult_fold[of 1 rest "snd i"] by (simp add: Tuple_product_def reduce_def)
qed

lemma size_t_lookup: "(case lookup offsets d of Some op \<Rightarrow> size_t op | None \<Rightarrow> 0) = size_t (offset_in offsets d)"
  by (simp add: offset_in_def size_t_def split: option.splits)

lemma layout_loop_step:
  assumes "0 \<le> di" "di < getNumDims t" "nx = di + (if firstInner t then 1 else - 1)"
    and ih: "\<And>idx prevSize. layout_loop t offsets nx idx prevSize
       = layout_list rest offsets (size_t (Tuple_product t)) idx prevSize"
  shows "layout_loop t offsets di idx prevSize
     = layout_list (tq t ! nat di # rest) offsets (size_t (Tuple_product t)) idx prevSize"
proof -
  have ne: "di \<noteq> (if firstInner t then getNumDims t else - 1)" using assms by auto
  show ?thesis
    by (subst layout_loop.simps)
      (use ne assms(1,2) in \<open>simp add: Let_def size_t_lookup assms(3)[symmetric] ih\<close>)
qed

lemma layout_loop_forward:
  assumes "firstInner t"
  shows "k \<le> length (tq t) \<Longrightarrow>
     layout_loop t offsets (int k) idx prevSize
       = layout_list (drop k (tq t)) offsets (size_t (Tuple_product t)) idx prevSize"
proof (induction "length (tq t) - k" arbitrary: k idx prevSize)
  case 0
  then have "k = length (tq t)" by simp
  then show ?case using assms by (subst layout_loop.simps) (simp add: getNumDims_def)
next
  case (Suc m)
  then have k: "k < length (tq t)" by simp
  have d: "drop k (tq t) = tq t ! nat (int k) # drop (Suc k) (tq t)"
    using k by (simp add: Cons_nth_drop_Suc)
  have ih: "\<And>idx prevSize. layout_loop t offsets (int (Suc k)) idx prevSize
       = layout_list (drop (Suc k) (tq t)) offsets (size_t (Tuple_product t)) idx prevSize"
    using Suc.hyps(1)[of "Suc k"] Suc.hyps(2) k by simp
  have nx: "int (Suc k) = int k + (if firstInner t then 1 else - 1)" using assms by simp
  have "0 \<le> int k" "int k < getNumDims t" using k by (simp_all add: getNumDims_def)
  then show ?case unfolding d using nx ih by (rule layout_loop_step)
qed

lemma layout_loop_backward:
  assumes "\<not> firstInner t"
  shows "k \<le> length (tq t) \<Longrightarrow>
     layout_loop t offsets (int k - 1) idx prevSize
       = layout_list (rev (take k (tq t))) offsets (size_t (Tuple_product t)) idx prevSize"
proof (induction k arbitrary: idx prevSize)
  case 0
  then show ?case using assms by (subst layout_loop.simps) simp
next
  case (Suc k)
  then have k: "k < length (tq t)" by simp
  have d: "rev (take (Suc k) (tq t)) = tq t ! nat (int (Suc k) - 1) # rev (take k (tq t))"
    using k by (simp add: take_Suc_conv_app_nth)
  have ih: "\<And>idx prevSize. layout_loop t offsets (int k - 1) idx prevSize
       = layout_list (rev (take k (tq t))) offsets (size_t (Tuple_product t)) idx prevSize"
    using Suc.IH k by simp
  have nx: "int k - 1 = (int (Suc k) - 1) + (if firstInner t then 1 else - 1)"
    using assms by simp
  have "0 \<le> int (Suc k) - 1" "int (Suc k) - 1 < getNumDims t"
    using k by (simp_all add: getNumDims_def)
  then show ?case unfolding d using nx ih by (rule layout_loop_step)
qed

lemma layout_as_list:
  "layout t offsets strictRhs =
     (if strictRhs \<and> \<not> areDimsSame t offsets then Inl ContractViolation
      else layout_list (inner_first t) offsets (size_t (Tuple_product t)) 0 1)"
proof (cases "firstInner t")
  case True
  then show ?thesis using layout_loop_forward[OF True, of 0 offsets 0 1]
    by (simp add: layout_def inner_first_def)
next
  case False
  then show ?thesis using layout_loop_backward[OF False, of "length (tq t)" offsets 0 1]
    by (simp add: layout_def inner_first_def getNumDims_def)
qed

lemma layout_list_linearize:
  "layout_list ds offsets P idx prevSize = Inr r \<Longrightarrow>
   r = fst (linearize_acc ds offsets (idx, prevSize))"
  by (induction ds arbitrary: idx prevSize) (auto simp: size_t_lookup split: if_splits)

lemma layout_list_error:
  "layout_list ds offsets P idx prevSize = Inl e \<Longrightarrow> e = ContractViolation"
  by (induction ds arbitrary: idx prevSize) (auto split: if_splits)

lemma layout_list_bad_offset:
  "i \<in> set ds \<Longrightarrow> \<not> size_t (offset_in offsets (fst i)) < size_t (snd i) \<Longrightarrow>
   layout_list ds offsets P idx prevSize = Inl ContractViolation"
  by (induction ds arbitrary: idx prevSize) auto

lemma layout_list_cong:
  "(\<And>i. i \<in> set ds \<Longrightarrow> offset_in o1 (fst i) = offset_in o2 (fst i)) \<Longrightarrow>
   layout_list ds o1 P idx prevSize = layout_list ds o2 P idx prevSize"
  by (induction ds arbitrary: idx prevSize) auto

lemma size_t_less:
  "0 \<le> a \<Longrightarrow> a < 2 ^ 64 \<Longrightarrow> 0 \<le> b \<Longrightarrow> b < 2 ^ 64 \<Longrightarrow> (size_t a < size_t b) = (a < b)"
  by (simp add: size_t_def wi_less)

lemma size_t_le:
  "0 \<le> a \<Longrightarrow> a < 2 ^ 64 \<Longrightarrow> 0 \<le> b \<Longrightarrow> b < 2 ^ 64 \<Longrightarrow> (size_t a \<le> size_t b) = (a \<le> b)"
  by (simp add: size_t_def wi_le)

lemma size_t_negative:
  assumes "- (2 ^ 63) \<le> v" "v < 0" "0 \<le> e" "e < 2 ^ 63"
  shows "\<not> size_t v < size_t e"
proof -
  have "(v + 2 ^ 64) mod 2 ^ 64 = v + 2 ^ 64" using assms by (intro mod_pos_pos_trivial) simp_all
  then have "v mod 2 ^ 64 = v + 2 ^ 64" by simp
  moreover have "e mod 2 ^ 64 = e" using assms by simp
  ultimately show ?thesis using assms by (simp add: size_t_def wi_less)
qed

lemma size_t_bad_offset:
  assumes "0 \<le> e" "e < 2 ^ 63" "- (2 ^ 63) \<le> v" "v < 2 ^ 63" "v < 0 \<or> e \<le> v"
  shows "\<not> size_t v < size_t e"
proof (cases "v < 0")
  case True
  then show ?thesis using assms size_t_negative by blast
next
  case False
  then show ?thesis using assms size_t_less[of v e] by simp
qed

lemma prod_list_pos: "\<forall>x \<in> set xs. (1::int) \<le> x \<Longrightarrow> 1 \<le> prod_list xs"
proof (induction xs)
  case Nil
  then show ?case by simp
next
  case (Cons x xs)
  then have "1 \<le> x" "1 \<le> prod_list xs" by simp_all
  then have "1 * 1 \<le> x * prod_list xs" by (intro mult_mono) simp_all
  then show ?case by simp
qed

lemma layout_list_value:
  assumes "\<forall>i \<in> set ds. 0 \<le> offset_in offs (fst i) \<and> offset_in offs (fst i) < snd i"
    and "0 \<le> m" "m < q" "q * prod_list (map snd ds) = Ptot" "Ptot < 2 ^ 64"
  shows "layout_list ds offs (size_t Ptot) (size_t m) (size_t q)
     = Inr (size_t (m + q * radix_value ds offs))"
  using assms
proof (induction ds arbitrary: m q)
  case Nil
  then show ?case by simp
next
  case (Cons i rest)
  let ?o = "offset_in offs (fst i)" and ?e = "snd i"
  let ?R = "prod_list (map snd rest)"
  have o: "0 \<le> ?o" "?o < ?e" using Cons.prems(1) by simp_all
  have R: "1 \<le> ?R"
  proof (rule prod_list_pos, rule ballI)
    fix x assume "x \<in> set (map snd rest)"
    then obtain j where "j \<in> set rest" "x = snd j" by auto
    then show "1 \<le> x" using Cons.prems(1) by force
  qed
  have q: "1 \<le> q" using Cons.prems(2,3) by simp
  have P: "Ptot = (q * ?e) * ?R" using Cons.prems(4) by (simp add: mult.assoc)
  have e1: "1 \<le> ?e" using o by simp
  have "1 * 1 \<le> q * ?e" using q e1 by (intro mult_mono) simp_all
  then have qe: "1 \<le> q * ?e" by simp
  have "(q * ?e) * 1 \<le> (q * ?e) * ?R" using R qe by (intro mult_left_mono) simp_all
  then have qeP: "q * ?e \<le> Ptot" unfolding P by simp
  have "1 * ?e \<le> q * ?e" using q e1 by (intro mult_right_mono) simp_all
  then have eq: "?e \<le> q * ?e" by simp
  have m': "m + ?o * q < q * ?e"
  proof -
    have "m + ?o * q < q + ?o * q" using Cons.prems(3) by simp
    also have "\<dots> = (?o + 1) * q" by (simp add: algebra_simps)
    also have "\<dots> \<le> ?e * q" using o q by (intro mult_right_mono) simp_all
    finally show ?thesis by (simp add: mult.commute)
  qed
  have m0: "0 \<le> m + ?o * q" using Cons.prems(2) o q by simp
  have eb: "?e < 2 ^ 64" using eq qeP Cons.prems(5) by linarith
  have ob: "?o < 2 ^ 64" using o eb by linarith
  have c1: "size_t ?o < size_t ?e"
    using o eb ob by (subst size_t_less) simp_all
  have a1: "size_t m + size_t ?o * size_t q = size_t (m + ?o * q)"
    by (simp add: size_t_def)
  have a2: "size_t q * size_t ?e = size_t (q * ?e)"
    by (simp add: size_t_def)
  have mP: "m + ?o * q < Ptot" using m' qeP by linarith
  have mb: "m + ?o * q < 2 ^ 64" using mP Cons.prems(5) by linarith
  have P0: "0 \<le> Ptot" using qe qeP by linarith
  have qb: "q * ?e < 2 ^ 64" using qeP Cons.prems(5) by linarith
  have q0: "0 \<le> q * ?e" using qe by linarith
  have c2: "size_t (m + ?o * q) < size_t Ptot"
    using size_t_less[OF m0 mb P0 Cons.prems(5)] mP by simp
  have c3: "size_t (q * ?e) \<le> size_t Ptot"
    using size_t_le[OF q0 qb P0 Cons.prems(5)] qeP by simp
  have ih: "layout_list rest offs (size_t Ptot) (size_t (m + ?o * q)) (size_t (q * ?e))
      = Inr (size_t (m + ?o * q + q * ?e * radix_value rest offs))"
    using Cons.prems(1) m0 m' P Cons.prems(5) by (intro Cons.IH) simp_all
  have fin: "m + ?o * q + q * ?e * radix_value rest offs = m + q * radix_value (i # rest) offs"
    by (simp add: algebra_simps)
  have "layout_list (i # rest) offs (size_t Ptot) (size_t m) (size_t q)
      = layout_list rest offs (size_t Ptot) (size_t (m + ?o * q)) (size_t (q * ?e))"
    using c1 c2 c3 by (simp add: a1 a2)
  then show ?case unfolding ih fin .
qed

subsection \<open>Layout: contract violations and offsets outside the strict mode\<close>

lemma map_of_assign:
  "map_of (assign d v q) d' = (if d' = d \<and> map_of q d \<noteq> None then Some v else map_of q d')"
  by (induction q) auto

lemma lookup_addDimBack:
  "lookup (addDimBack t d v) d' = (if d' = d then Some v else lookup t d')"
proof (cases "lookup t d")
  case None
  then show ?thesis
    by (cases "map_of (tq t) d'") (auto simp: addDimBack_def lookup_def map_add_def)
next
  case (Some a)
  then show ?thesis by (simp add: addDimBack_def lookup_def map_of_assign)
qed

lemma layout_nonstrict_cong:
  assumes "\<And>i. i \<in> set (tq t) \<Longrightarrow> offset_in o1 (fst i) = offset_in o2 (fst i)"
  shows "layout t o1 False = layout t o2 False"
proof -
  have "\<And>i. i \<in> set (inner_first t) \<Longrightarrow> offset_in o1 (fst i) = offset_in o2 (fst i)"
    using assms by (simp add: inner_first_def split: if_splits)
  then have "layout_list (inner_first t) o1 (size_t (Tuple_product t)) 0 1
      = layout_list (inner_first t) o2 (size_t (Tuple_product t)) 0 1"
    by (rule layout_list_cong)
  then show ?thesis by (simp add: layout_as_list)
qed

lemma layout_bad_offset:
  assumes "i \<in> set (tq t)" "lookup offsets (fst i) = Some v"
    "0 \<le> snd i" "snd i < 2 ^ 63" "- (2 ^ 63) \<le> v" "v < 2 ^ 63" "v < 0 \<or> snd i \<le> v"
  shows "layout t offsets strictRhs = Inl ContractViolation"
proof -
  have v: "offset_in offsets (fst i) = v" using assms(2) by (simp add: offset_in_def)
  have "\<not> size_t v < size_t (snd i)"
    using assms(3-7) by (rule size_t_bad_offset)
  then have bad: "\<not> size_t (offset_in offsets (fst i)) < size_t (snd i)"
    unfolding v .
  have "i \<in> set (inner_first t)" using assms(1) by (simp add: inner_first_def)
  then have "layout_list (inner_first t) offsets (size_t (Tuple_product t)) 0 1
      = Inl ContractViolation"
    using bad by (rule layout_list_bad_offset)
  then show ?thesis by (simp add: layout_as_list)
qed

text \<open>
  C4. \<^verbatim>\<open>layout(offsets, strict)\<close> fails with a contract violation when \<open>strict\<close> is
  true and the dimensions of \<open>offsets\<close> are not those of \<^verbatim>\<open>this\<close>, and, strict or
  not, when an offset given for a dimension of \<^verbatim>\<open>this\<close> is negative or not below the
  extent of that dimension (extent \<open>\<ge> 0\<close>, both values within the signed 64-bit range):
  the result is the violation, never an index. With \<open>strict\<close> false the result
  depends only on the offsets of the dimensions of \<^verbatim>\<open>this\<close>, a missing one counting
  as 0: adding a missing dimension with offset 0 changes nothing, nor does adding a
  dimension that \<^verbatim>\<open>this\<close> does not have.
\<close>

theorem layout_contract:
  "(\<not> areDimsSame t offsets \<longrightarrow> layout t offsets True = Inl ContractViolation)
   \<and> (wf_Tuple t \<and> wf_Tuple offsets \<and> fst ` set (tq t) \<noteq> fst ` set (tq offsets) \<longrightarrow>
        layout t offsets True = Inl ContractViolation)
   \<and> (\<forall>i v. i \<in> set (tq t) \<and> lookup offsets (fst i) = Some v
          \<and> 0 \<le> snd i \<and> snd i < 2 ^ 63 \<and> - (2 ^ 63) \<le> v \<and> v < 2 ^ 63
          \<and> (v < 0 \<or> snd i \<le> v) \<longrightarrow>
        layout t offsets strictRhs = Inl ContractViolation)
   \<and> ((\<forall>i. i \<in> set (tq t) \<longrightarrow> offset_in o1 (fst i) = offset_in o2 (fst i)) \<longrightarrow>
        layout t o1 False = layout t o2 False)
   \<and> (\<forall>d. lookup offsets d = None \<longrightarrow>
        layout t (addDimBack offsets d 0) False = layout t offsets False)
   \<and> (\<forall>d v. d \<notin> fst ` set (tq t) \<longrightarrow>
        layout t (addDimBack offsets d v) False = layout t offsets False)"
proof (intro conjI impI allI)
  show "\<not> areDimsSame t offsets \<Longrightarrow> layout t offsets True = Inl ContractViolation"
    by (simp add: layout_def)
  show "wf_Tuple t \<and> wf_Tuple offsets \<and> fst ` set (tq t) \<noteq> fst ` set (tq offsets) \<Longrightarrow>
      layout t offsets True = Inl ContractViolation"
    using areDimsSame_names[of t offsets] by (auto simp: layout_def)
  show "\<And>i v. i \<in> set (tq t) \<and> lookup offsets (fst i) = Some v
          \<and> 0 \<le> snd i \<and> snd i < 2 ^ 63 \<and> - (2 ^ 63) \<le> v \<and> v < 2 ^ 63
          \<and> (v < 0 \<or> snd i \<le> v) \<Longrightarrow>
        layout t offsets strictRhs = Inl ContractViolation"
    using layout_bad_offset by blast
  show "\<forall>i. i \<in> set (tq t) \<longrightarrow> offset_in o1 (fst i) = offset_in o2 (fst i) \<Longrightarrow>
        layout t o1 False = layout t o2 False"
    by (rule layout_nonstrict_cong) blast
  show "\<And>d. lookup offsets d = None \<Longrightarrow>
        layout t (addDimBack offsets d 0) False = layout t offsets False"
    by (rule layout_nonstrict_cong) (simp add: offset_in_def lookup_addDimBack)
  show "\<And>d v. d \<notin> fst ` set (tq t) \<Longrightarrow>
        layout t (addDimBack offsets d v) False = layout t offsets False"
  proof (rule layout_nonstrict_cong)
    fix d v i assume "d \<notin> fst ` set (tq t)" "i \<in> set (tq t)"
    then have "fst i \<noteq> d" by force
    then show "offset_in (addDimBack offsets d v) (fst i) = offset_in offsets (fst i)"
      by (simp add: offset_in_def lookup_addDimBack)
  qed
qed

theorem layout_contract_witness:
  "layout \<lparr>tq = [(''x'', 4), (''y'', 3)], firstInner = True\<rparr>
          \<lparr>tq = [(''x'', 0)], firstInner = True\<rparr> True = Inl ContractViolation
   \<and> layout \<lparr>tq = [(''x'', 4), (''y'', 3)], firstInner = True\<rparr>
            \<lparr>tq = [(''x'', 4), (''y'', 0)], firstInner = True\<rparr> True
       = Inl ContractViolation
   \<and> layout \<lparr>tq = [(''x'', 4), (''y'', 3)], firstInner = True\<rparr>
            \<lparr>tq = [(''x'', - 1), (''y'', 0)], firstInner = True\<rparr> False
       = Inl ContractViolation
   \<and> layout \<lparr>tq = [(''x'', 4), (''y'', 3)], firstInner = True\<rparr>
            \<lparr>tq = [(''y'', 1)], firstInner = True\<rparr> False = Inr 4
   \<and> layout \<lparr>tq = [(''x'', 4), (''y'', 3)], firstInner = True\<rparr>
            (addDimBack \<lparr>tq = [(''y'', 1)], firstInner = True\<rparr> ''x'' 0) False = Inr 4
   \<and> layout \<lparr>tq = [(''x'', 4), (''y'', 3)], firstInner = True\<rparr>
            (addDimBack \<lparr>tq = [(''y'', 1)], firstInner = True\<rparr> ''z'' 7) False = Inr 4"
proof -
  let ?E = "\<lparr>tq = [(''x'', 4), (''y'', 3)], firstInner = True\<rparr>"
  let ?y1 = "\<lparr>tq = [(''y'', 1)], firstInner = True\<rparr>"
  show ?thesis
    using layout_contract [of ?E "\<lparr>tq = [(''x'', 0)], firstInner = True\<rparr>" True ?y1
          "addDimBack ?y1 ''x'' 0"]
      layout_contract [of ?E "\<lparr>tq = [(''x'', 4), (''y'', 0)], firstInner = True\<rparr>" True]
      layout_contract [of ?E "\<lparr>tq = [(''x'', - 1), (''y'', 0)], firstInner = True\<rparr>" False]
      layout_contract [of ?E ?y1 False]
    by (simp add: layout_def areDimsSame_def getNumDims_def lookup_def layout_loop.simps
        Tuple_product_def reduce_def size_t_def addDimBack_def wf_Tuple_def)
qed

subsection \<open>Layout: the linear index\<close>

lemma layout_Inr_linearize:
  "layout t offsets strictRhs = Inr idx \<Longrightarrow> idx = linearize t offsets"
  unfolding layout_as_list linearize_def inner_first_def
  by (auto split: if_splits dest: layout_list_linearize)

lemma layout_value:
  assumes "strictRhs \<longrightarrow> areDimsSame t offsets"
    and "\<forall>i \<in> set (tq t). 0 \<le> offset_in offsets (fst i) \<and> offset_in offsets (fst i) < snd i"
    and "Tuple_product t < 2 ^ 64"
  shows "layout t offsets strictRhs = Inr (size_t (radix_value (inner_first t) offsets))"
proof -
  have 1: "\<forall>i \<in> set (inner_first t).
      0 \<le> offset_in offsets (fst i) \<and> offset_in offsets (fst i) < snd i"
    using assms(2) by (simp add: inner_first_def)
  have 2: "1 * prod_list (map snd (inner_first t)) = Tuple_product t"
    by (simp add: Tuple_product_prod_list inner_first_def rev_map[symmetric])
  have "layout_list (inner_first t) offsets (size_t (Tuple_product t)) (size_t 0) (size_t 1)
     = Inr (size_t (0 + 1 * radix_value (inner_first t) offsets))"
    using 1 _ _ 2 assms(3) by (rule layout_list_value) simp_all
  moreover have "size_t 0 = 0" "size_t 1 = 1" by (simp_all add: size_t_def)
  ultimately show ?thesis using assms(1) by (simp add: layout_as_list)
qed

lemma uint_size_t: "0 \<le> v \<Longrightarrow> v < 2 ^ 64 \<Longrightarrow> uint (size_t v) = v"
  by (simp add: size_t_def uint_word_of_int)

lemma layout_box43:
  assumes "0 \<le> x" "x < 4" "0 \<le> y" "y < 3"
  shows "layout \<lparr>tq = [(''x'', 4), (''y'', 3)], firstInner = True\<rparr>
            \<lparr>tq = [(''x'', x), (''y'', y)], firstInner = True\<rparr> True = Inr (size_t (x + 4 * y))"
proof -
  let ?E = "\<lparr>tq = [(''x'', 4), (''y'', 3)], firstInner = True\<rparr>"
  let ?P = "\<lparr>tq = [(''x'', x), (''y'', y)], firstInner = True\<rparr>"
  have "layout ?E ?P True = Inr (size_t (radix_value (inner_first ?E) ?P))"
    using assms
    by (intro layout_value)
      (simp_all add: areDimsSame_def getNumDims_def lookup_def offset_in_def
        Tuple_product_prod_list)
  then show ?thesis by (simp add: inner_first_def offset_in_def lookup_def)
qed

lemma layout_bij43:
  "bij_betw (\<lambda>(x, y). layout
                  \<lparr>tq = [(''x'', 4), (''y'', 3)], firstInner = True\<rparr>
                          \<lparr>tq = [(''x'', x), (''y'', y)], firstInner = True\<rparr> True)
      ({0..<4} \<times> {0..<3}) (Inr ` {w. w < 12})"
proof (rule bij_betw_byWitness[where f' = "\<lambda>r :: error + 64 word. case r of Inr w \<Rightarrow> (uint w mod 4, uint w div 4) | Inl e \<Rightarrow> (0, 0)"])
  let ?f = "\<lambda>(x, y). layout \<lparr>tq = [(''x'', 4), (''y'', 3)], firstInner = True\<rparr>
                          \<lparr>tq = [(''x'', x), (''y'', y)], firstInner = True\<rparr> True"
  let ?g = "\<lambda>r :: error + 64 word. case r of Inr w \<Rightarrow> (uint w mod 4, uint w div 4) | Inl e \<Rightarrow> (0::int, 0::int)"
  have val: "\<And>x y. (x, y) \<in> {0..<4} \<times> {0..<3} \<Longrightarrow> ?f (x, y) = Inr (size_t (x + 4 * y))"
    by (simp add: layout_box43)
  have u: "\<And>x y. (x, y) \<in> {0..<4} \<times> {0..<3} \<Longrightarrow> uint (size_t (x + 4 * y)) = x + 4 * y"
    by (intro uint_size_t) auto
  show "\<forall>a \<in> {0..<4} \<times> {0..<3}. ?g (?f a) = a"
  proof
    fix a :: "int \<times> int" assume a: "a \<in> {0..<4} \<times> {0..<3}"
    obtain x y where xy: "a = (x, y)" by (cases a)
    have "(x + 4 * y) mod 4 = x" "(x + 4 * y) div 4 = y" using a xy by auto
    then show "?g (?f a) = a" using val[of x y] u[of x y] a xy by simp
  qed
  show "\<forall>a' \<in> Inr ` {w. w < 12}. ?f (?g a') = a'"
  proof
    fix a' :: "error + 64 word" assume "a' \<in> Inr ` {w. w < 12}"
    then obtain w :: "64 word" where w: "a' = Inr w" "w < 12" by auto
    have ub: "0 \<le> uint w" "uint w < 12" using w(2) by (simp_all add: word_less_def)
    then have "0 \<le> uint w div 4" "uint w div 4 < 3" by presburger+
    then have r: "(uint w mod 4, uint w div 4) \<in> {0..<4} \<times> {0..<3}" by simp
    have "uint w mod 4 + 4 * (uint w div 4) = uint w" by simp
    then have "?f (uint w mod 4, uint w div 4) = Inr (size_t (uint w))"
      using val[OF r] by simp
    then show "?f (?g a') = a'" using w(1) by (simp add: size_t_def)
  qed
  show "?f ` ({0..<4} \<times> {0..<3}) \<subseteq> Inr ` {w. w < 12}"
  proof
    fix r assume "r \<in> ?f ` ({0..<4} \<times> {0..<3})"
    then obtain x y where xy: "(x, y) \<in> {0..<4} \<times> {0..<3}" "r = ?f (x, y)" by auto
    have "x + 4 * y < 12" "0 \<le> x + 4 * y" using xy(1) by auto
    then have "size_t (x + 4 * y) < size_t 12" by (subst size_t_less) simp_all
    then have "size_t (x + 4 * y) < 12" by (simp add: size_t_def)
    then show "r \<in> Inr ` {w. w < 12}" using xy val[OF xy(1)] by simp
  qed
  show "?g ` Inr ` {w. w < 12} \<subseteq> {0..<4} \<times> {0..<3}"
  proof
    fix p assume "p \<in> ?g ` Inr ` {w. w < 12}"
    then obtain r where r: "r \<in> Inr ` {w :: 64 word. w < 12}" "p = ?g r" by blast
    then obtain w :: "64 word" where rw: "r = Inr w" "w < 12" by blast
    have w: "p = (uint w mod 4, uint w div 4)" "w < 12" using r(2) rw by simp_all
    have "0 \<le> uint w" "uint w < 12" using w(2) by (simp_all add: word_less_def)
    then have "0 \<le> uint w div 4" "uint w div 4 < 3" by presburger+
    then show "p \<in> {0..<4} \<times> {0..<3}" using w(1) by simp
  qed
qed

text \<open>
  C1. When \<^verbatim>\<open>layout\<close> returns an index, it is the one obtained by visiting the
  dimensions in orientation order (dimension 0 first when first-inner, the last one
  first otherwise) with \<open>index += offsetInDim * runningProduct; runningProduct *=
  extentOfDim\<close>; and it does return it when the offsets lie within the extents (in
  strict mode with the same dimensions, the product of the extents below \<open>2^64\<close>).
  For the extents \<open>{x: 4, y: 3}\<close>, first-inner, the offsets \<open>{x:0,y:0}\<close>,
  \<open>{x:3,y:0}\<close>, \<open>{x:0,y:1}\<close>, \<open>{x:3,y:2}\<close> give 0, 3, 4, 11, and the map is a
  bijection from the box onto \<open>[0, 12)\<close>. For the extents \<open>{t:1, x:8, y:8, z:8}\<close>,
  not first-inner, \<open>{t:0,x:1,y:0,z:0}\<close> gives 64 and \<open>{t:0,x:0,y:0,z:1}\<close> gives 1.
\<close>

theorem layout_linearize:
  "(layout t offsets strictRhs = Inr idx \<longrightarrow> idx = linearize t offsets)
   \<and> ((strictRhs \<longrightarrow> areDimsSame t offsets)
        \<and> (\<forall>i \<in> set (tq t).
              0 \<le> offset_in offsets (fst i) \<and> offset_in offsets (fst i) < snd i)
        \<and> Tuple_product t < 2 ^ 64 \<longrightarrow>
        layout t offsets strictRhs = Inr (linearize t offsets))
   \<and> layout \<lparr>tq = [(''x'', 4), (''y'', 3)], firstInner = True\<rparr>
            \<lparr>tq = [(''x'', 0), (''y'', 0)], firstInner = True\<rparr> True
          = Inr 0
   \<and> layout \<lparr>tq = [(''x'', 4), (''y'', 3)], firstInner = True\<rparr>
            \<lparr>tq = [(''x'', 3), (''y'', 0)], firstInner = True\<rparr> True
          = Inr 3
   \<and> layout \<lparr>tq = [(''x'', 4), (''y'', 3)], firstInner = True\<rparr>
            \<lparr>tq = [(''x'', 0), (''y'', 1)], firstInner = True\<rparr> True
          = Inr 4
   \<and> layout \<lparr>tq = [(''x'', 4), (''y'', 3)], firstInner = True\<rparr>
            \<lparr>tq = [(''x'', 3), (''y'', 2)], firstInner = True\<rparr> True
          = Inr 11
   \<and> bij_betw (\<lambda>(x, y). layout
                  \<lparr>tq = [(''x'', 4), (''y'', 3)], firstInner = True\<rparr>
                  \<lparr>tq = [(''x'', x), (''y'', y)], firstInner = True\<rparr> True)
        ({0..<4} \<times> {0..<3}) (Inr ` {w. w < 12})
   \<and> layout \<lparr>tq = [(''t'', 1), (''x'', 8), (''y'', 8), (''z'', 8)], firstInner = False\<rparr>
            \<lparr>tq = [(''t'', 0), (''x'', 1), (''y'', 0), (''z'', 0)], firstInner = True\<rparr> True
          = Inr 64
   \<and> layout \<lparr>tq = [(''t'', 1), (''x'', 8), (''y'', 8), (''z'', 8)], firstInner = False\<rparr>
            \<lparr>tq = [(''t'', 0), (''x'', 0), (''y'', 0), (''z'', 1)], firstInner = True\<rparr> True
          = Inr 1"
proof (intro conjI impI)
  show "layout t offsets strictRhs = Inr idx \<Longrightarrow> idx = linearize t offsets"
    by (rule layout_Inr_linearize)
next
  assume a: "(strictRhs \<longrightarrow> areDimsSame t offsets)
        \<and> (\<forall>i \<in> set (tq t).
              0 \<le> offset_in offsets (fst i) \<and> offset_in offsets (fst i) < snd i)
        \<and> Tuple_product t < 2 ^ 64"
  then have "layout t offsets strictRhs = Inr (size_t (radix_value (inner_first t) offsets))"
    by (intro layout_value) simp_all
  then show "layout t offsets strictRhs = Inr (linearize t offsets)"
    using layout_Inr_linearize by fastforce
next
  show "layout \<lparr>tq = [(''x'', 4), (''y'', 3)], firstInner = True\<rparr>
            \<lparr>tq = [(''x'', 0), (''y'', 0)], firstInner = True\<rparr> True
          = Inr 0"
    using layout_box43[of 0 0] by (simp add: size_t_def)
  show "layout \<lparr>tq = [(''x'', 4), (''y'', 3)], firstInner = True\<rparr>
            \<lparr>tq = [(''x'', 3), (''y'', 0)], firstInner = True\<rparr> True
          = Inr 3"
    using layout_box43[of 3 0] by (simp add: size_t_def)
  show "layout \<lparr>tq = [(''x'', 4), (''y'', 3)], firstInner = True\<rparr>
            \<lparr>tq = [(''x'', 0), (''y'', 1)], firstInner = True\<rparr> True
          = Inr 4"
    using layout_box43[of 0 1] by (simp add: size_t_def)
  show "layout \<lparr>tq = [(''x'', 4), (''y'', 3)], firstInner = True\<rparr>
            \<lparr>tq = [(''x'', 3), (''y'', 2)], firstInner = True\<rparr> True
          = Inr 11"
    using layout_box43[of 3 2] by (simp add: size_t_def)
  show "bij_betw (\<lambda>(x, y). layout
                  \<lparr>tq = [(''x'', 4), (''y'', 3)], firstInner = True\<rparr>
                  \<lparr>tq = [(''x'', x), (''y'', y)], firstInner = True\<rparr> True)
        ({0..<4} \<times> {0..<3}) (Inr ` {w. w < 12})"
    by (rule layout_bij43)
  show "layout \<lparr>tq = [(''t'', 1), (''x'', 8), (''y'', 8), (''z'', 8)], firstInner = False\<rparr>
            \<lparr>tq = [(''t'', 0), (''x'', 1), (''y'', 0), (''z'', 0)], firstInner = True\<rparr> True
          = Inr 64"
    by (simp add: layout_def areDimsSame_def getNumDims_def lookup_def layout_loop.simps
        Tuple_product_def reduce_def size_t_def)
  show "layout \<lparr>tq = [(''t'', 1), (''x'', 8), (''y'', 8), (''z'', 8)], firstInner = False\<rparr>
            \<lparr>tq = [(''t'', 0), (''x'', 0), (''y'', 0), (''z'', 1)], firstInner = True\<rparr> True
          = Inr 1"
    by (simp add: layout_def areDimsSame_def getNumDims_def lookup_def layout_loop.simps
        Tuple_product_def reduce_def size_t_def)
qed

theorem layout_linearize_witness:
  "layout \<lparr>tq = [(''x'', 4), (''y'', 3)], firstInner = True\<rparr>
          \<lparr>tq = [(''x'', 3), (''y'', 2)], firstInner = True\<rparr> True = Inr 11
   \<and> linearize \<lparr>tq = [(''x'', 4), (''y'', 3)], firstInner = True\<rparr>
          \<lparr>tq = [(''x'', 3), (''y'', 2)], firstInner = True\<rparr> = 11
   \<and> layout \<lparr>tq = [(''t'', 1), (''x'', 8), (''y'', 8), (''z'', 8)], firstInner = False\<rparr>
          \<lparr>tq = [(''t'', 0), (''x'', 1), (''y'', 0), (''z'', 0)], firstInner = True\<rparr>
          True = Inr 64
   \<and> linearize \<lparr>tq = [(''t'', 1), (''x'', 8), (''y'', 8), (''z'', 8)], firstInner = False\<rparr>
          \<lparr>tq = [(''t'', 0), (''x'', 1), (''y'', 0), (''z'', 0)], firstInner = True\<rparr>
        = 64"
proof -
  let ?E = "\<lparr>tq = [(''x'', 4), (''y'', 3)], firstInner = True\<rparr>"
  let ?P = "\<lparr>tq = [(''x'', 3), (''y'', 2)], firstInner = True\<rparr>"
  let ?E8 = "\<lparr>tq = [(''t'', 1), (''x'', 8), (''y'', 8), (''z'', 8)], firstInner = False\<rparr>"
  let ?P8 = "\<lparr>tq = [(''t'', 0), (''x'', 1), (''y'', 0), (''z'', 0)], firstInner = True\<rparr>"
  note a = layout_linearize [of ?E ?P True 11]
  note b = layout_linearize [of ?E8 ?P8 True 64]
  have 1: "layout ?E ?P True = Inr 11" using a by blast
  have 2: "layout ?E8 ?P8 True = Inr 64" using b by blast
  have "(True \<longrightarrow> areDimsSame ?E ?P)
        \<and> (\<forall>i \<in> set (tq ?E). 0 \<le> offset_in ?P (fst i) \<and> offset_in ?P (fst i) < snd i)
        \<and> Tuple_product ?E < 2 ^ 64"
    by (simp add: areDimsSame_def getNumDims_def lookup_def offset_in_def
        Tuple_product_def reduce_def)
  then have "layout ?E ?P True = Inr (linearize ?E ?P)" using a by blast
  then have 3: "linearize ?E ?P = 11" using 1 by simp
  have 4: "linearize ?E8 ?P8 = 64" using b 2 by metis
  show ?thesis using 1 2 3 4 by blast
qed

subsection \<open>Visiting all points\<close>

lemma map_fst_assign: "map fst (assign n v q) = map fst q"
  by (induction q) auto

lemma lookup_set_slot:
  "lookup (set_slot tp n v) m = (if m = n \<and> lookup tp n \<noteq> None then Some v else lookup tp m)"
  by (simp add: set_slot_def lookup_def map_of_assign)

lemma names_set_slot: "map fst (tq (set_slot tp n v)) = map fst (tq tp)"
  by (simp add: set_slot_def map_fst_assign)

lemma firstInner_set_slot: "firstInner (set_slot tp n v) = firstInner tp"
  by (simp add: set_slot_def)

lemma setVal_set_slot: "lookup tp n \<noteq> None \<Longrightarrow> setVal tp n v = Inr (set_slot tp n v)"
  by (auto simp: setVal_def set_slot_def)

lemma alist_eqI:
  "map fst q = map fst q' \<Longrightarrow> distinct (map fst q) \<Longrightarrow> (\<And>n. map_of q n = map_of q' n) \<Longrightarrow> q = q'"
proof (induction q arbitrary: q')
  case Nil
  then show ?case by simp
next
  case (Cons x r)
  then obtain y r' where q': "q' = y # r'" by (cases q') auto
  have fx: "fst y = fst x" and names: "map fst r = map fst r'" using Cons.prems(1) q' by simp_all
  have "map_of (x # r) (fst x) = map_of (y # r') (fst x)" using Cons.prems(3)[of "fst x"] q' by simp
  then have sx: "snd y = snd x" using fx by simp
  have nx: "fst x \<notin> fst ` set r" "fst x \<notin> fst ` set r'"
    using Cons.prems(2) names by (simp_all, metis list.set_map)
  have "\<And>n. map_of r n = map_of r' n"
  proof -
    fix n
    show "map_of r n = map_of r' n"
    proof (cases "n = fst x")
      case True
      then show ?thesis using nx by (simp add: map_of_eq_None_iff[THEN iffD2])
    next
      case False
      then show ?thesis using Cons.prems(3)[of n] q' fx by simp
    qed
  qed
  then have "r = r'" using Cons.IH[OF names] Cons.prems(2) by simp
  then show ?case using q' fx sx by (simp add: prod_eq_iff)
qed

lemma Tuple_eqI:
  assumes "map fst (tq a) = map fst (tq b)" "distinct (map fst (tq a))"
    "\<And>n. lookup a n = lookup b n" "firstInner a = firstInner b"
  shows "a = b"
proof -
  have "tq a = tq b" using assms(1-3) by (intro alist_eqI) (simp_all add: lookup_def)
  then show ?thesis using assms(4) by simp
qed

lemma same_outside_refl: "same_outside ds tp tp"
  by (simp add: same_outside_def)

lemma enum_points_cong:
  "distinct (map fst (tq tp)) \<Longrightarrow> same_outside ds tp tp' \<Longrightarrow> enum_points ds tp' = enum_points ds tp"
proof (induction ds arbitrary: tp tp')
  case Nil
  have "tp' = tp"
    using Nil by (intro Tuple_eqI) (simp_all add: same_outside_def)
  then show ?case by simp
next
  case (Cons d ds)
  have "\<And>j. enum_points ds (set_slot tp' (fst d) j) = enum_points ds (set_slot tp (fst d) j)"
  proof -
    fix j
    have pres: "(lookup tp' (fst d) \<noteq> None) = (lookup tp (fst d) \<noteq> None)"
      using Cons.prems(2) by (simp add: same_outside_def lookup_None_iff) (metis list.set_map)
    have "\<And>n. n \<notin> fst ` set ds \<Longrightarrow>
        lookup (set_slot tp' (fst d) j) n = lookup (set_slot tp (fst d) j) n"
    proof -
      fix n assume n: "n \<notin> fst ` set ds"
      show "lookup (set_slot tp' (fst d) j) n = lookup (set_slot tp (fst d) j) n"
      proof (cases "n = fst d")
        case True
        then show ?thesis using pres by (auto simp: lookup_set_slot)
      next
        case False
        then have "lookup tp' n = lookup tp n"
          using Cons.prems(2) n by (simp add: same_outside_def)
        then show ?thesis using False by (simp add: lookup_set_slot)
      qed
    qed
    then have "same_outside ds (set_slot tp (fst d) j) (set_slot tp' (fst d) j)"
      using Cons.prems(2)
      by (simp add: same_outside_def names_set_slot firstInner_set_slot)
    moreover have "distinct (map fst (tq (set_slot tp (fst d) j)))"
      using Cons.prems(1) by (simp add: names_set_slot)
    ultimately show "enum_points ds (set_slot tp' (fst d) j) = enum_points ds (set_slot tp (fst d) j)"
      by (intro Cons.IH)
  qed
  then show ?case by simp
qed

lemma rec_base:
  "cur < 0 \<or> getNumDims t \<le> cur \<Longrightarrow>
   visitAllPoints_rec t cur step i (tp, tr) = Some (Inr (tp, tr @ [tp]))"
  by (subst visitAllPoints_rec.simps) auto

lemma rec_done:
  "0 \<le> cur \<Longrightarrow> cur < getNumDims t \<Longrightarrow> \<not> i < snd (tq t ! nat cur) \<Longrightarrow>
   visitAllPoints_rec t cur step i st = Some (Inr st)"
  by (subst visitAllPoints_rec.simps) (simp add: Let_def)

lemma rec_iter:
  assumes "0 \<le> cur" "cur < getNumDims t" "d = tq t ! nat cur" "i < snd d"
    "lookup tp (fst d) \<noteq> None"
    "visitAllPoints_rec t (cur + step) step 0 (set_slot tp (fst d) i, tr) = Some (Inr st')"
  shows "visitAllPoints_rec t cur step i (tp, tr) = visitAllPoints_rec t cur step (i + 1) st'"
  by (subst visitAllPoints_rec.simps)
    (use assms in \<open>simp add: Let_def setVal_set_slot\<close>)

lemma enum_from_0: "enum_from ds tp 0 = enum_points ds tp"
  by (cases ds) simp_all

lemma enum_from_empty: "\<not> i < snd d \<Longrightarrow> enum_from (d # ds) tp i = []"
  by simp

lemma enum_from_step:
  "i < snd d \<Longrightarrow>
   enum_from (d # ds) tp i = enum_points ds (set_slot tp (fst d) i) @ enum_from (d # ds) tp (i + 1)"
  by (simp add: upto_rec1[of i "snd d - 1"])

lemma same_outside_slot:
  assumes "same_outside ds (set_slot tp n i) tp2" "lookup tp n \<noteq> None"
  shows "same_outside ds (set_slot tp n j) (set_slot tp2 n j)"
proof -
  have names: "map fst (tq tp2) = map fst (tq tp)"
    using assms(1) by (simp add: same_outside_def names_set_slot)
  then have pres: "lookup tp2 n \<noteq> None"
    using assms(2) by (simp add: lookup_None_iff) (metis list.set_map)
  have "\<And>m. m \<notin> fst ` set ds \<Longrightarrow> lookup (set_slot tp2 n j) m = lookup (set_slot tp n j) m"
  proof -
    fix m assume m: "m \<notin> fst ` set ds"
    show "lookup (set_slot tp2 n j) m = lookup (set_slot tp n j) m"
    proof (cases "m = n")
      case True
      then show ?thesis using pres assms(2) by (simp add: lookup_set_slot)
    next
      case False
      have "lookup tp2 m = lookup (set_slot tp n i) m"
        using assms(1) m by (simp add: same_outside_def)
      then show ?thesis using False by (simp add: lookup_set_slot)
    qed
  qed
  then show ?thesis
    using assms(1) names
    by (simp add: same_outside_def names_set_slot firstInner_set_slot)
qed

lemma enum_from_cong:
  assumes "distinct (map fst (tq tp))" "same_outside ds (set_slot tp (fst d) i) tp2"
    "lookup tp (fst d) \<noteq> None"
  shows "enum_from (d # ds) tp2 k = enum_from (d # ds) tp k"
proof -
  have "\<And>j. enum_points ds (set_slot tp2 (fst d) j) = enum_points ds (set_slot tp (fst d) j)"
  proof -
    fix j
    have "distinct (map fst (tq (set_slot tp (fst d) j)))"
      using assms(1) by (simp add: names_set_slot)
    then show "enum_points ds (set_slot tp2 (fst d) j) = enum_points ds (set_slot tp (fst d) j)"
      using same_outside_slot[OF assms(2,3)] by (rule enum_points_cong)
  qed
  then show ?thesis by simp
qed

lemma same_outside_chain:
  assumes "same_outside ds (set_slot tp (fst d) i) tp2" "same_outside (d # ds) tp2 tp3"
  shows "same_outside (d # ds) tp tp3"
  using assms
  by (simp add: same_outside_def names_set_slot firstInner_set_slot lookup_set_slot)

lemma rec_loop:
  assumes dist: "distinct (map fst (tq t))"
    and cur: "0 \<le> cur" "cur < getNumDims t" "d = tq t ! nat cur"
    and inner: "\<And>tp tr. map fst (tq tp) = map fst (tq t) \<Longrightarrow>
       \<exists>tp'. visitAllPoints_rec t (cur + step) step 0 (tp, tr)
               = Some (Inr (tp', tr @ enum_from ds tp 0)) \<and> same_outside ds tp tp'"
  shows "map fst (tq tp) = map fst (tq t) \<Longrightarrow>
     \<exists>tp'. visitAllPoints_rec t cur step i (tp, tr)
             = Some (Inr (tp', tr @ enum_from (d # ds) tp i)) \<and> same_outside (d # ds) tp tp'"
proof (induction "nat (snd d - i)" arbitrary: i tp tr rule: less_induct)
  case less
  show ?case
  proof (cases "i < snd d")
    case False
    then have "visitAllPoints_rec t cur step i (tp, tr) = Some (Inr (tp, tr))"
      using cur by (simp add: rec_done)
    then show ?thesis using False by (auto simp: same_outside_refl)
  next
    case True
    have "d \<in> set (tq t)" using cur by (simp add: getNumDims_def)
    then have "fst d \<in> fst ` set (tq tp)"
      using less.prems by (metis imageI list.set_map)
    then have pres: "lookup tp (fst d) \<noteq> None" by (simp add: lookup_None_iff)
    let ?tp1 = "set_slot tp (fst d) i"
    have n1: "map fst (tq ?tp1) = map fst (tq t)" using less.prems by (simp add: names_set_slot)
    from inner[OF n1, of tr] obtain tp2 where
      r2: "visitAllPoints_rec t (cur + step) step 0 (?tp1, tr)
             = Some (Inr (tp2, tr @ enum_points ds ?tp1))"
      and s2: "same_outside ds ?tp1 tp2"
      by (auto simp: enum_from_0)
    have n2: "map fst (tq tp2) = map fst (tq t)" using s2 n1 by (simp add: same_outside_def)
    have step: "visitAllPoints_rec t cur step i (tp, tr)
        = visitAllPoints_rec t cur step (i + 1) (tp2, tr @ enum_points ds ?tp1)"
      using cur True pres r2 by (rule rec_iter)
    have "nat (snd d - (i + 1)) < nat (snd d - i)" using True by simp
    from less.hyps[OF this n2, of "tr @ enum_points ds ?tp1"] obtain tp3 where
      r3: "visitAllPoints_rec t cur step (i + 1) (tp2, tr @ enum_points ds ?tp1)
             = Some (Inr (tp3, (tr @ enum_points ds ?tp1) @ enum_from (d # ds) tp2 (i + 1)))"
      and s3: "same_outside (d # ds) tp2 tp3"
      by blast
    have dtp: "distinct (map fst (tq tp))" using dist less.prems by simp
    have e: "enum_from (d # ds) tp2 (i + 1) = enum_from (d # ds) tp (i + 1)"
      using dtp s2 pres by (rule enum_from_cong)
    have "visitAllPoints_rec t cur step i (tp, tr)
        = Some (Inr (tp3, tr @ enum_from (d # ds) tp i))"
      unfolding step r3 e enum_from_step[OF True] by simp
    moreover have "same_outside (d # ds) tp tp3" using s2 s3 by (rule same_outside_chain)
    ultimately show ?thesis by blast
  qed
qed

lemma rec_correct:
  assumes "distinct (map fst (tq t))"
  shows "is_path t cur step ds \<Longrightarrow> map fst (tq tp) = map fst (tq t) \<Longrightarrow>
     \<exists>tp'. visitAllPoints_rec t cur step i (tp, tr)
             = Some (Inr (tp', tr @ enum_from ds tp i)) \<and> same_outside ds tp tp'"
proof (induction ds arbitrary: cur i tp tr)
  case Nil
  then show ?case by (auto simp: rec_base same_outside_refl)
next
  case (Cons d ds)
  have cur: "0 \<le> cur" "cur < getNumDims t" "d = tq t ! nat cur"
    and path: "is_path t (cur + step) step ds"
    using Cons.prems(1) by simp_all
  show ?case
    using assms cur _ Cons.prems(2)
  proof (rule rec_loop)
    fix tp :: Tuple and tr :: "Tuple list"
    assume "map fst (tq tp) = map fst (tq t)"
    then show "\<exists>tp'. visitAllPoints_rec t (cur + step) step 0 (tp, tr)
               = Some (Inr (tp', tr @ enum_from ds tp 0)) \<and> same_outside ds tp tp'"
      using Cons.IH[OF path] by blast
  qed
qed

lemma path_backward:
  "k \<le> length (tq t) \<Longrightarrow> is_path t (int k - 1) (- 1) (rev (take k (tq t)))"
proof (induction k)
  case 0
  then show ?case by simp
next
  case (Suc k)
  then have k: "k < length (tq t)" by simp
  have d: "rev (take (Suc k) (tq t)) = tq t ! k # rev (take k (tq t))"
    using k by (simp add: take_Suc_conv_app_nth)
  have "int (Suc k) - 1 + - 1 = int k - 1" by simp
  then show ?case using Suc.IH k unfolding d by (simp add: getNumDims_def)
qed

lemma path_forward:
  "k \<le> length (tq t) \<Longrightarrow> is_path t (int k) 1 (drop k (tq t))"
proof (induction "length (tq t) - k" arbitrary: k)
  case 0
  then show ?case by (simp add: getNumDims_def)
next
  case (Suc m)
  then have k: "k < length (tq t)" by simp
  have d: "drop k (tq t) = tq t ! k # drop (Suc k) (tq t)"
    using k by (simp add: Cons_nth_drop_Suc)
  have "is_path t (int (Suc k)) 1 (drop (Suc k) (tq t))"
    using Suc.hyps(1)[of "Suc k"] Suc.hyps(2) k by simp
  moreover have "int (Suc k) = int k + 1" by simp
  ultimately have "is_path t (int k + 1) 1 (drop (Suc k) (tq t))" by (simp only:)
  then show ?case using k unfolding d by (simp add: getNumDims_def)
qed

lemma visitAllPoints_enum:
  assumes "wf_Tuple t"
  shows "visitAllPoints t = Some (Inr (enum_points (rev (inner_first t)) t))"
proof (cases "tq t = []")
  case True
  then show ?thesis by (simp add: visitAllPoints_def inner_first_def)
next
  case False
  have dist: "distinct (map fst (tq t))" using assms by (simp add: wf_Tuple_def)
  show ?thesis
  proof (cases "firstInner t")
    case True
    have "is_path t (int (length (tq t)) - 1) (- 1) (rev (take (length (tq t)) (tq t)))"
      by (rule path_backward) simp
    then have "is_path t (getNumDims t - 1) (- 1) (rev (tq t))"
      by (simp add: getNumDims_def)
    from rec_correct[OF dist this, of t 0 "[]"] obtain tp' where
      "visitAllPoints_rec t (getNumDims t - 1) (- 1) 0 (t, [])
         = Some (Inr (tp', enum_points (rev (tq t)) t))"
      by (auto simp: enum_from_0)
    then show ?thesis using True False by (simp add: visitAllPoints_def inner_first_def)
  next
    case F: False
    have "is_path t (int 0) 1 (drop 0 (tq t))" by (rule path_forward) simp
    then have "is_path t 0 1 (tq t)" by simp
    from rec_correct[OF dist this, of t 0 "[]"] obtain tp' where
      "visitAllPoints_rec t 0 1 0 (t, []) = Some (Inr (tp', enum_points (tq t) t))"
      by (auto simp: enum_from_0)
    then show ?thesis using F False by (simp add: visitAllPoints_def inner_first_def)
  qed
qed

lemma upto_shift: "map (\<lambda>m. c + m) [0..y - 1] = [c..c + y - 1]"
proof (rule nth_equalityI)
  show "length (map (\<lambda>m. c + m) [0..y - 1]) = length [c..c + y - 1]" by simp
next
  fix k assume "k < length (map (\<lambda>m. c + m) [0..y - 1])"
  then have k: "int k \<le> y - 1" by simp
  then have "[0..y - 1] ! k = 0 + int k" "[c..c + y - 1] ! k = c + int k"
    by simp_all
  then show "map (\<lambda>m. c + m) [0..y - 1] ! k = [c..c + y - 1] ! k"
    using k by simp
qed

lemma upto_blocks_append:
  assumes "0 \<le> x" "0 \<le> y"
  shows "[0..x + y - 1] = [0..x - 1] @ [x..x + y - 1]"
proof (cases "y = 0")
  case True
  then show ?thesis by simp
next
  case False
  then show ?thesis using assms by (intro upto_split1) simp_all
qed

lemma blocks:
  assumes "0 \<le> P"
  shows "concat (map (\<lambda>j. map (\<lambda>m. b + j * P + m) [0..P - 1]) [0..int n - 1])
     = map (\<lambda>m. b + m) [0..int n * P - 1]"
proof (induction n)
  case 0
  then show ?case by simp
next
  case (Suc n)
  have s1: "[0..int (Suc n) - 1] = [0..int n - 1] @ [int n]"
    using upto_rec2[of 0 "int n"] by simp
  have nP: "0 \<le> int n * P" using assms by simp
  have "int (Suc n) * P - 1 = int n * P + P - 1" by (simp add: algebra_simps)
  then have s2: "[0..int (Suc n) * P - 1] = [0..int n * P - 1] @ [int n * P..int n * P + P - 1]"
    using upto_blocks_append[OF nP assms] by simp
  have s3: "map (\<lambda>m. b + m) [int n * P..int n * P + P - 1]
      = map (\<lambda>m. b + int n * P + m) [0..P - 1]"
  proof -
    have "[int n * P..int n * P + P - 1] = map (\<lambda>m. int n * P + m) [0..P - 1]"
      by (rule upto_shift[symmetric])
    then show ?thesis by (simp add: comp_def add.assoc)
  qed
  show ?case unfolding s1 s2 by (simp add: Suc.IH s3 del: of_nat_Suc)
qed

lemma enum_same_outside:
  "tp' \<in> set (enum_points ds tp) \<Longrightarrow> same_outside ds tp tp'"
proof (induction ds arbitrary: tp)
  case Nil
  then show ?case by (simp add: same_outside_refl)
next
  case (Cons d ds)
  then obtain j where "tp' \<in> set (enum_points ds (set_slot tp (fst d) j))" by auto
  then have "same_outside ds (set_slot tp (fst d) j) tp'" by (rule Cons.IH)
  moreover have "same_outside (d # ds) tp' tp'" by (rule same_outside_refl)
  ultimately show ?case by (rule same_outside_chain)
qed

lemma enum_value:
  assumes "tp' \<in> set (enum_points ds (set_slot tp n j))" "n \<notin> fst ` set ds"
    "lookup tp n \<noteq> None"
  shows "offset_in tp' n = j"
proof -
  have "same_outside ds (set_slot tp n j) tp'" using assms(1) by (rule enum_same_outside)
  then have "lookup tp' n = lookup (set_slot tp n j) n"
    using assms(2) by (simp add: same_outside_def)
  then show ?thesis using assms(3) by (simp add: offset_in_def lookup_set_slot)
qed

lemma enum_horner:
  "distinct (map fst ds) \<Longrightarrow> fst ` set ds \<subseteq> fst ` set (tq tp) \<Longrightarrow> \<forall>d \<in> set ds. 0 \<le> snd d \<Longrightarrow>
   map (\<lambda>p. horner_value ds p a) (enum_points ds tp)
     = map (\<lambda>m. a * prod_list (map snd ds) + m) [0..prod_list (map snd ds) - 1]"
proof (induction ds arbitrary: tp a)
  case Nil
  then show ?case by simp
next
  case (Cons d ds)
  let ?P = "prod_list (map snd ds)"
  have P0: "0 \<le> ?P" using Cons.prems(3) by (intro prod_list_nonneg) auto
  have e0: "0 \<le> snd d" using Cons.prems(3) by simp
  have nd: "fst d \<notin> fst ` set ds" using Cons.prems(1) by simp
  have pres: "lookup tp (fst d) \<noteq> None" using Cons.prems(2) by (simp add: lookup_None_iff)
  have inner: "\<And>j. map (\<lambda>p. horner_value (d # ds) p a) (enum_points ds (set_slot tp (fst d) j))
      = map (\<lambda>m. a * snd d * ?P + j * ?P + m) [0..?P - 1]"
  proof -
    fix j
    let ?tp = "set_slot tp (fst d) j"
    have "map (\<lambda>p. horner_value (d # ds) p a) (enum_points ds ?tp)
        = map (\<lambda>p. horner_value ds p (a * snd d + j)) (enum_points ds ?tp)"
    proof (rule map_cong[OF refl])
      fix p assume "p \<in> set (enum_points ds ?tp)"
      then have "offset_in p (fst d) = j" using nd pres by (rule enum_value)
      then show "horner_value (d # ds) p a = horner_value ds p (a * snd d + j)" by simp
    qed
    also have "\<dots> = map (\<lambda>m. (a * snd d + j) * ?P + m) [0..?P - 1]"
    proof (rule Cons.IH)
      show "distinct (map fst ds)" using Cons.prems(1) by simp
      have "set (map fst (tq ?tp)) = set (map fst (tq tp))" by (simp only: names_set_slot)
      then have "fst ` set (tq ?tp) = fst ` set (tq tp)" by simp
      then show "fst ` set ds \<subseteq> fst ` set (tq ?tp)" using Cons.prems(2) by simp
      show "\<forall>d \<in> set ds. 0 \<le> snd d" using Cons.prems(3) by simp
    qed
    finally show "map (\<lambda>p. horner_value (d # ds) p a) (enum_points ds ?tp)
        = map (\<lambda>m. a * snd d * ?P + j * ?P + m) [0..?P - 1]"
      by (simp add: algebra_simps)
  qed
  have "map (\<lambda>p. horner_value (d # ds) p a) (enum_points (d # ds) tp)
      = concat (map (\<lambda>j. map (\<lambda>p. horner_value (d # ds) p a)
                  (enum_points ds (set_slot tp (fst d) j))) [0..snd d - 1])"
    by (simp only: enum_points.simps map_concat map_map comp_def)
  also have "\<dots>
      = concat (map (\<lambda>j. map (\<lambda>m. a * snd d * ?P + j * ?P + m) [0..?P - 1]) [0..snd d - 1])"
    by (simp only: inner)
  also have "\<dots> = map (\<lambda>m. a * snd d * ?P + m) [0..snd d * ?P - 1]"
  proof -
    have "int (nat (snd d)) = snd d" using e0 by simp
    then show ?thesis using blocks[OF P0, of "a * snd d * ?P" "nat (snd d)"] by (simp only:)
  qed
  finally show ?case by (simp only: list.map prod_list.Cons mult.assoc)
qed

lemma same_outside_Nil_eq:
  assumes "distinct (map fst (tq tp))" "same_outside [] tp tp'"
  shows "tp' = tp"
  using assms by (intro Tuple_eqI) (simp_all add: same_outside_def)

lemma offset_in_present:
  "lookup p n \<noteq> None \<Longrightarrow> lookup p n = Some (offset_in p n)"
  by (auto simp: offset_in_def)

lemma enum_box:
  "distinct (map fst (tq tp)) \<Longrightarrow> distinct (map fst ds) \<Longrightarrow> fst ` set ds \<subseteq> fst ` set (tq tp) \<Longrightarrow>
   set (enum_points ds tp)
     = {tp'. same_outside ds tp tp'
          \<and> (\<forall>d \<in> set ds. 0 \<le> offset_in tp' (fst d) \<and> offset_in tp' (fst d) < snd d)}"
proof (induction ds arbitrary: tp)
  case Nil
  then show ?case by (auto simp: same_outside_refl dest: same_outside_Nil_eq)
next
  case (Cons d ds)
  have nd: "fst d \<notin> fst ` set ds" using Cons.prems(2) by simp
  have pres: "lookup tp (fst d) \<noteq> None" using Cons.prems(3) by (simp add: lookup_None_iff)
  have ih: "\<And>j. set (enum_points ds (set_slot tp (fst d) j))
     = {tp'. same_outside ds (set_slot tp (fst d) j) tp'
          \<and> (\<forall>d \<in> set ds. 0 \<le> offset_in tp' (fst d) \<and> offset_in tp' (fst d) < snd d)}"
  proof -
    fix j
    let ?tp = "set_slot tp (fst d) j"
    have "set (map fst (tq ?tp)) = set (map fst (tq tp))" by (simp only: names_set_slot)
    then have "fst ` set (tq ?tp) = fst ` set (tq tp)" by simp
    then have "fst ` set ds \<subseteq> fst ` set (tq ?tp)" using Cons.prems(3) by simp
    moreover have "distinct (map fst (tq ?tp))" using Cons.prems(1) by (simp add: names_set_slot)
    moreover have "distinct (map fst ds)" using Cons.prems(2) by simp
    ultimately show "set (enum_points ds ?tp)
     = {tp'. same_outside ds ?tp tp'
          \<and> (\<forall>d \<in> set ds. 0 \<le> offset_in tp' (fst d) \<and> offset_in tp' (fst d) < snd d)}"
      by (intro Cons.IH)
  qed
  show ?case
  proof (intro set_eqI iffI)
    fix tp' assume "tp' \<in> set (enum_points (d # ds) tp)"
    then obtain j where j: "0 \<le> j" "j < snd d"
      and mem: "tp' \<in> set (enum_points ds (set_slot tp (fst d) j))"
      by auto
    have so: "same_outside ds (set_slot tp (fst d) j) tp'"
      and rng: "\<forall>d \<in> set ds. 0 \<le> offset_in tp' (fst d) \<and> offset_in tp' (fst d) < snd d"
      using mem ih[of j] by auto
    have "same_outside (d # ds) tp' tp'" by (rule same_outside_refl)
    with so have "same_outside (d # ds) tp tp'" by (rule same_outside_chain)
    moreover have "offset_in tp' (fst d) = j" using mem nd pres by (rule enum_value)
    ultimately show "tp' \<in> {tp'. same_outside (d # ds) tp tp'
          \<and> (\<forall>d \<in> set (d # ds). 0 \<le> offset_in tp' (fst d) \<and> offset_in tp' (fst d) < snd d)}"
      using j rng by simp
  next
    fix tp' assume "tp' \<in> {tp'. same_outside (d # ds) tp tp'
          \<and> (\<forall>d \<in> set (d # ds). 0 \<le> offset_in tp' (fst d) \<and> offset_in tp' (fst d) < snd d)}"
    then have so: "same_outside (d # ds) tp tp'"
      and rd: "0 \<le> offset_in tp' (fst d)" "offset_in tp' (fst d) < snd d"
      and rng: "\<forall>d \<in> set ds. 0 \<le> offset_in tp' (fst d) \<and> offset_in tp' (fst d) < snd d"
      by simp_all
    let ?j = "offset_in tp' (fst d)"
    have names: "map fst (tq tp') = map fst (tq tp)" using so by (simp add: same_outside_def)
    then have "set (map fst (tq tp')) = set (map fst (tq tp))" by simp
    then have "fst d \<in> fst ` set (tq tp')" using Cons.prems(3) by simp
    then have pres': "lookup tp' (fst d) \<noteq> None" by (simp add: lookup_None_iff)
    have "\<And>n. n \<notin> fst ` set ds \<Longrightarrow> lookup tp' n = lookup (set_slot tp (fst d) ?j) n"
    proof -
      fix n assume n: "n \<notin> fst ` set ds"
      show "lookup tp' n = lookup (set_slot tp (fst d) ?j) n"
      proof (cases "n = fst d")
        case True
        then show ?thesis using pres pres' by (simp add: lookup_set_slot offset_in_present)
      next
        case False
        then have "lookup tp' n = lookup tp n" using so n by (simp add: same_outside_def)
        then show ?thesis using False by (simp add: lookup_set_slot)
      qed
    qed
    then have "same_outside ds (set_slot tp (fst d) ?j) tp'"
      using so by (simp add: same_outside_def names_set_slot firstInner_set_slot)
    then have "tp' \<in> set (enum_points ds (set_slot tp (fst d) ?j))"
      using rng ih[of ?j] by simp
    moreover have "?j \<in> set [0..snd d - 1]" using rd by simp
    ultimately show "tp' \<in> set (enum_points (d # ds) tp)" by auto
  qed
qed

lemma horner_append:
  "horner_value (xs @ ys) p a = horner_value ys p (horner_value xs p a)"
  by (induction xs arbitrary: a) simp_all

lemma radix_horner: "radix_value L p = horner_value (rev L) p 0"
  by (induction L) (simp_all add: horner_append algebra_simps)

lemma visit_order_facts:
  assumes "wf_Tuple t"
  shows "distinct (map fst (rev (inner_first t)))"
    and "set (rev (inner_first t)) = set (tq t)"
    and "prod_list (map snd (rev (inner_first t))) = Tuple_product t"
  using assms
  by (simp_all add: inner_first_def wf_Tuple_def Tuple_product_prod_list
      rev_map[symmetric])

lemma same_outside_all:
  assumes "set ds = set (tq t)"
  shows "same_outside ds t p \<longleftrightarrow> map fst (tq p) = map fst (tq t) \<and> firstInner p = firstInner t"
proof
  assume "same_outside ds t p"
  then show "map fst (tq p) = map fst (tq t) \<and> firstInner p = firstInner t"
    by (simp add: same_outside_def)
next
  assume a: "map fst (tq p) = map fst (tq t) \<and> firstInner p = firstInner t"
  then have "set (map fst (tq p)) = set (map fst (tq t))" by simp
  then have names: "fst ` set (tq p) = fst ` set (tq t)" by simp
  have "\<And>n. n \<notin> fst ` set ds \<Longrightarrow> lookup p n = lookup t n"
    using names assms by (simp add: lookup_None_iff[THEN iffD2])
  then show "same_outside ds t p" using a by (simp add: same_outside_def)
qed

lemma visited_layout:
  assumes "map fst (tq p) = map fst (tq t)"
    and "\<forall>i \<in> set (tq t). 0 \<le> offset_in p (fst i) \<and> offset_in p (fst i) < snd i"
    and "Tuple_product t < 2 ^ 64"
  shows "layout t p True = Inr (size_t (horner_value (rev (inner_first t)) p 0))"
proof -
  have "length (tq p) = length (tq t)" using assms(1) by (metis length_map)
  moreover have "fst ` set (tq t) = fst ` set (tq p)" using assms(1) by (metis list.set_map)
  ultimately have "areDimsSame t p" by (simp add: areDimsSame_iff)
  then have "layout t p True = Inr (size_t (radix_value (inner_first t) p))"
    using assms(2,3) by (intro layout_value) simp_all
  then show ?thesis by (simp add: radix_horner)
qed

text \<open>
  C2. For a tuple \<open>t\<close> of extents (distinct names, every value \<open>\<ge> 0\<close>),
  \<^verbatim>\<open>visitAllPoints\<close> returns, and it calls the visitor exactly \<^verbatim>\<open>product()\<close> times,
  once for every point of the box and for nothing else: the tuples with the names,
  order and flag of \<open>t\<close> whose value in each dimension lies in \<open>[0, extent)\<close>, each
  exactly once. The points come in increasing order of the index that \<^verbatim>\<open>layout\<close> of
  \<open>t\<close> gives them: the k-th point has index k (the product below \<open>2^64\<close>). A tuple
  without dimensions has the visitor called once, with the tuple itself.
\<close>

theorem visitAllPoints_box_in_layout_order:
  assumes "wf_Tuple t" and "\<forall>i \<in> set (tq t). 0 \<le> snd i"
  shows "\<exists>pts. visitAllPoints t = Some (Inr pts)
     \<and> int (length pts) = Tuple_product t
     \<and> distinct pts
     \<and> set pts = {p. map fst (tq p) = map fst (tq t) \<and> firstInner p = firstInner t
                     \<and> (\<forall>i \<in> set (tq t).
                           0 \<le> offset_in p (fst i) \<and> offset_in p (fst i) < snd i)}
     \<and> (Tuple_product t < 2 ^ 64 \<longrightarrow>
          map (\<lambda>p. layout t p True) pts
            = map (\<lambda>m. Inr (size_t m)) [0..Tuple_product t - 1])
     \<and> (tq t = [] \<longrightarrow> pts = [t])"
proof -
  let ?ds = "rev (inner_first t)"
  let ?pts = "enum_points ?ds t"
  note f = visit_order_facts[OF assms(1)]
  have dt: "distinct (map fst (tq t))" using assms(1) by (simp add: wf_Tuple_def)
  have sub: "fst ` set ?ds \<subseteq> fst ` set (tq t)" using f(2) by simp
  have nn: "\<forall>d \<in> set ?ds. 0 \<le> snd d" using assms(2) f(2) by simp
  have P0: "0 \<le> Tuple_product t"
    using assms(2) unfolding Tuple_product_prod_list by (intro prod_list_nonneg) auto
  have hv: "map (\<lambda>p. horner_value ?ds p 0) ?pts = [0..Tuple_product t - 1]"
    using enum_horner[OF f(1) sub nn, of 0] by (simp add: f(3))
  have 1: "visitAllPoints t = Some (Inr ?pts)" using assms(1) by (rule visitAllPoints_enum)
  have "length (map (\<lambda>p. horner_value ?ds p 0) ?pts) = length [0..Tuple_product t - 1]"
    by (simp only: hv)
  then have 2: "int (length ?pts) = Tuple_product t" using P0 by simp
  have "distinct (map (\<lambda>p. horner_value ?ds p 0) ?pts)" by (simp only: hv distinct_upto)
  then have 3: "distinct ?pts" by (simp add: distinct_map)
  have 4: "set ?pts = {p. map fst (tq p) = map fst (tq t) \<and> firstInner p = firstInner t
                     \<and> (\<forall>i \<in> set (tq t).
                           0 \<le> offset_in p (fst i) \<and> offset_in p (fst i) < snd i)}"
    unfolding enum_box[OF dt f(1) sub] same_outside_all[OF f(2)] f(2) by blast
  have 5: "map (\<lambda>p. layout t p True) ?pts
            = map (\<lambda>m. Inr (size_t m)) [0..Tuple_product t - 1]"
    if b: "Tuple_product t < 2 ^ 64"
  proof -
    have "map (\<lambda>p. layout t p True) ?pts
        = map (\<lambda>p. Inr (size_t (horner_value ?ds p 0))) ?pts"
    proof (rule map_cong[OF refl])
      fix p assume "p \<in> set ?pts"
      then have "map fst (tq p) = map fst (tq t)"
        "\<forall>i \<in> set (tq t). 0 \<le> offset_in p (fst i) \<and> offset_in p (fst i) < snd i"
        unfolding 4 by simp_all
      then show "layout t p True = Inr (size_t (horner_value ?ds p 0))"
        using b by (rule visited_layout)
    qed
    also have "\<dots> = map (\<lambda>m. Inr (size_t m)) (map (\<lambda>p. horner_value ?ds p 0) ?pts)"
      by (simp add: comp_def)
    finally show ?thesis by (simp only: hv)
  qed
  have 6: "tq t = [] \<Longrightarrow> ?pts = [t]" by (simp add: inner_first_def)
  show ?thesis using 1 2 3 4 5 6 by blast
qed

theorem visitAllPoints_box_in_layout_order_witness:
  "wf_Tuple \<lparr>tq = [(''x'', 2), (''y'', 3)], firstInner = True\<rparr>
   \<and> visitAllPoints \<lparr>tq = [(''x'', 2), (''y'', 3)], firstInner = True\<rparr>
       = Some (Inr [\<lparr>tq = [(''x'', 0), (''y'', 0)], firstInner = True\<rparr>,
          \<lparr>tq = [(''x'', 1), (''y'', 0)], firstInner = True\<rparr>,
          \<lparr>tq = [(''x'', 0), (''y'', 1)], firstInner = True\<rparr>,
          \<lparr>tq = [(''x'', 1), (''y'', 1)], firstInner = True\<rparr>,
          \<lparr>tq = [(''x'', 0), (''y'', 2)], firstInner = True\<rparr>,
          \<lparr>tq = [(''x'', 1), (''y'', 2)], firstInner = True\<rparr>])
   \<and> map (\<lambda>p. layout \<lparr>tq = [(''x'', 2), (''y'', 3)], firstInner = True\<rparr> p True)
         [\<lparr>tq = [(''x'', 0), (''y'', 0)], firstInner = True\<rparr>,
          \<lparr>tq = [(''x'', 1), (''y'', 0)], firstInner = True\<rparr>,
          \<lparr>tq = [(''x'', 0), (''y'', 1)], firstInner = True\<rparr>,
          \<lparr>tq = [(''x'', 1), (''y'', 1)], firstInner = True\<rparr>,
          \<lparr>tq = [(''x'', 0), (''y'', 2)], firstInner = True\<rparr>,
          \<lparr>tq = [(''x'', 1), (''y'', 2)], firstInner = True\<rparr>]
       = [Inr 0, Inr 1, Inr 2, Inr 3, Inr 4, Inr 5]
   \<and> visitAllPoints \<lparr>tq = [], firstInner = False\<rparr> = Some (Inr [\<lparr>tq = [], firstInner = False\<rparr>])"
proof -
  let ?T = "\<lparr>tq = [(''x'', 2), (''y'', 3)], firstInner = True\<rparr>"
  let ?L = "[\<lparr>tq = [(''x'', 0), (''y'', 0)], firstInner = True\<rparr>,
          \<lparr>tq = [(''x'', 1), (''y'', 0)], firstInner = True\<rparr>,
          \<lparr>tq = [(''x'', 0), (''y'', 1)], firstInner = True\<rparr>,
          \<lparr>tq = [(''x'', 1), (''y'', 1)], firstInner = True\<rparr>,
          \<lparr>tq = [(''x'', 0), (''y'', 2)], firstInner = True\<rparr>,
          \<lparr>tq = [(''x'', 1), (''y'', 2)], firstInner = True\<rparr>]"
  let ?Z = "\<lparr>tq = [], firstInner = False\<rparr>"
  have wf: "wf_Tuple ?T" and wz: "wf_Tuple ?Z" by (simp_all add: wf_Tuple_def)
  have nn: "\<forall>i \<in> set (tq ?T). 0 \<le> snd i" and nz: "\<forall>i \<in> set (tq ?Z). 0 \<le> snd i"
    by simp_all
  have ev: "visitAllPoints ?T = Some (Inr ?L)"
    by (simp add: visitAllPoints_def visitAllPoints_rec.simps getNumDims_def setVal_def
        lookup_def)
  have pr: "Tuple_product ?T = 6" by (simp add: Tuple_product_def reduce_def)
  from visitAllPoints_box_in_layout_order [OF wf nn] obtain pts where
    p: "visitAllPoints ?T = Some (Inr pts)"
      "Tuple_product ?T < 2 ^ 64 \<longrightarrow>
          map (\<lambda>p. layout ?T p True) pts
            = map (\<lambda>m. Inr (size_t m)) [0..Tuple_product ?T - 1]"
    by blast
  have "pts = ?L" using p(1) ev by simp
  then have "map (\<lambda>p. layout ?T p True) ?L = map (\<lambda>m. Inr (size_t m)) [0..5]"
    using p(2) pr by simp
  then have lay: "map (\<lambda>p. layout ?T p True) ?L = [Inr 0, Inr 1, Inr 2, Inr 3, Inr 4, Inr 5]"
    by (simp add: size_t_def upto_rec1)
  from visitAllPoints_box_in_layout_order [OF wz nz] have "visitAllPoints ?Z = Some (Inr [?Z])"
    by auto
  then show ?thesis using wf ev lay by simp
qed

end
